theory Spec2Isabelle
  imports Complex_Main "HOL-Library.Word"
begin

section \<open>Numbers\<close>

text \<open>
  The program is a PyQt5 widget (\<^verbatim>\<open>ImageCanvas\<close>) driven by a main window. Python
  \<^verbatim>\<open>int\<close> is \<^typ>\<open>int\<close>. A Python \<^verbatim>\<open>float\<close> is an IEEE 754 double: a finite value,
  plus or minus infinity, or not-a-number. The sign of zero is not kept; no operation of
  the program tells the two zeros apart.
\<close>

datatype pyfloat = Fin real | PInf | NInf | NaN

datatype error = IndexError | OverflowError | ValueError | ZeroDivisionError

text \<open>\<^verbatim>\<open>int(x)\<close> on a finite float: truncation towards zero.\<close>

definition py_int :: "real \<Rightarrow> int" where
  "py_int x = (if 0 \<le> x then \<lfloor>x\<rfloor> else \<lceil>x\<rceil>)"

text \<open>
  \<^verbatim>\<open>round(x)\<close> on a finite float, one argument, in Python 3 (the source is Python 3 only:
  \<^verbatim>\<open>super().__init__\<close> without arguments, parameter annotations): the nearest integer,
  and the even one of the two when \<open>x\<close> is exactly halfway.
\<close>

definition py_round :: "real \<Rightarrow> int" where
  "py_round x =
     (let f = \<lfloor>x\<rfloor>; d = x - real_of_int f
      in if d < 1 / 2 then f
         else if 1 / 2 < d then f + 1
         else if even f then f else f + 1)"

text \<open>\<^verbatim>\<open>int(x)\<close> on any float: infinities and not-a-number raise.\<close>

fun int_of_float :: "pyfloat \<Rightarrow> error + int" where
  "int_of_float (Fin r) = Inr (py_int r)"
| "int_of_float PInf = Inl OverflowError"
| "int_of_float NInf = Inl OverflowError"
| "int_of_float NaN = Inl ValueError"

text \<open>
  Rounding of an exact result to a double, to nearest and to even on a tie: 53 significant
  bits, the exponent of the last bit not below \<open>-1074\<close> (subnormal numbers), no bound on
  the exponent above.
\<close>

definition fl :: "real \<Rightarrow> real" where
  "fl x =
     (if x = 0 then 0
      else (let s = max (\<lfloor>log 2 \<bar>x\<bar>\<rfloor> - 52) (- 1074)
            in real_of_int (py_round (x / 2 powi s)) * 2 powi s))"

text \<open>The double an exact result becomes: infinite when the rounded value is out of range.\<close>

definition to_double :: "real \<Rightarrow> pyfloat" where
  "to_double x =
     (if 2 ^ 1024 \<le> fl x then PInf
      else if fl x \<le> - (2 ^ 1024) then NInf
      else Fin (fl x))"

text \<open>The finite doubles are the values that rounding leaves alone, within the range.\<close>

definition is_double :: "real \<Rightarrow> bool" where
  "is_double x = (fl x = x \<and> \<bar>x\<bar> < 2 ^ 1024)"

text \<open>
  Arithmetic on finite doubles whose result stays in range: the sampling loop and the
  heading work on pixel coordinates, footprint offsets and values of sine and cosine.
\<close>

definition dadd :: "real \<Rightarrow> real \<Rightarrow> real" where
  "dadd a b = fl (a + b)"

definition dsub :: "real \<Rightarrow> real \<Rightarrow> real" where
  "dsub a b = fl (a - b)"

definition dmul :: "real \<Rightarrow> real \<Rightarrow> real" where
  "dmul a b = fl (a * b)"

definition ddiv :: "real \<Rightarrow> real \<Rightarrow> real" where
  "ddiv a b = fl (a / b)"

text \<open>Comparison, product and quotient of any two floats, as the main window needs them.\<close>

fun pf_less :: "pyfloat \<Rightarrow> pyfloat \<Rightarrow> bool" where
  "pf_less (Fin a) (Fin b) = (a < b)"
| "pf_less (Fin a) PInf = True"
| "pf_less NInf (Fin b) = True"
| "pf_less NInf PInf = True"
| "pf_less _ _ = False"

fun pf_le :: "pyfloat \<Rightarrow> pyfloat \<Rightarrow> bool" where
  "pf_le (Fin a) (Fin b) = (a \<le> b)"
| "pf_le (Fin a) PInf = True"
| "pf_le NInf (Fin b) = True"
| "pf_le NInf PInf = True"
| "pf_le NInf NInf = True"
| "pf_le PInf PInf = True"
| "pf_le _ _ = False"

fun pf_mul :: "pyfloat \<Rightarrow> pyfloat \<Rightarrow> pyfloat" where
  "pf_mul (Fin a) (Fin b) = to_double (a * b)"
| "pf_mul (Fin a) PInf = (if 0 < a then PInf else if a < 0 then NInf else NaN)"
| "pf_mul (Fin a) NInf = (if 0 < a then NInf else if a < 0 then PInf else NaN)"
| "pf_mul PInf (Fin b) = (if 0 < b then PInf else if b < 0 then NInf else NaN)"
| "pf_mul NInf (Fin b) = (if 0 < b then NInf else if b < 0 then PInf else NaN)"
| "pf_mul PInf PInf = PInf"
| "pf_mul PInf NInf = NInf"
| "pf_mul NInf PInf = NInf"
| "pf_mul NInf NInf = PInf"
| "pf_mul _ _ = NaN"

text \<open>Python raises on a zero divisor whatever the dividend.\<close>

fun pf_div :: "pyfloat \<Rightarrow> pyfloat \<Rightarrow> error + pyfloat" where
  "pf_div (Fin a) (Fin b) = (if b = 0 then Inl ZeroDivisionError else Inr (to_double (a / b)))"
| "pf_div PInf (Fin b) =
     (if b = 0 then Inl ZeroDivisionError else Inr (if 0 < b then PInf else NInf))"
| "pf_div NInf (Fin b) =
     (if b = 0 then Inl ZeroDivisionError else Inr (if 0 < b then NInf else PInf))"
| "pf_div NaN (Fin b) = (if b = 0 then Inl ZeroDivisionError else Inr NaN)"
| "pf_div (Fin a) PInf = Inr (Fin 0)"
| "pf_div (Fin a) NInf = Inr (Fin 0)"
| "pf_div _ _ = Inr NaN"

text \<open>\<^verbatim>\<open>max(a, b)\<close>: the first argument unless the second is greater.\<close>

definition py_max :: "pyfloat \<Rightarrow> pyfloat \<Rightarrow> pyfloat" where
  "py_max a b = (if pf_less a b then b else a)"

text \<open>
  \<^verbatim>\<open>math.degrees\<close> and \<^verbatim>\<open>math.radians\<close> multiply by a constant computed in doubles from
  the double nearest to \<open>\<pi>\<close>.
\<close>

definition pi_double :: real where
  "pi_double = 884279719003555 / 2 ^ 48"

definition radToDeg :: real where
  "radToDeg = fl (180 / pi_double)"

definition degToRad :: real where
  "degToRad = fl (pi_double / 180)"

definition degrees :: "real \<Rightarrow> real" where
  "degrees r = dmul r radToDeg"

definition radians :: "real \<Rightarrow> real" where
  "radians d = dmul d degToRad"

section \<open>The platform\<close>

text \<open>
  What the program takes from its platform and the source does not fix: the values of
  \<^verbatim>\<open>math.cos\<close>, \<^verbatim>\<open>math.sin\<close> and \<^verbatim>\<open>math.atan2\<close> on finite doubles (a C library gives
  doubles close to the exact values, finite, sine and cosine between \<open>-1\<close> and \<open>1\<close>), and
  whether Qt obtains the buffer for an image of a given width and height. Every statement
  below holds for every platform.
\<close>

record platform =
  p_cos :: "real \<Rightarrow> real"
  p_sin :: "real \<Rightarrow> real"
  p_atan2 :: "real \<Rightarrow> real \<Rightarrow> real"
  p_alloc :: "int \<Rightarrow> int \<Rightarrow> bool"

section \<open>Points and rasters\<close>

text \<open>A colour value (\<^verbatim>\<open>QRgb\<close>, 32 bits, ARGB) is a \<^typ>\<open>32 word\<close>.\<close>

type_synonym qrgb = "32 word"

text \<open>
  \<^verbatim>\<open>QPoint\<close> (mouse positions, integer) and \<^verbatim>\<open>QPointF\<close> (path points, finite doubles;
  the program makes them from mouse positions only).
\<close>

type_synonym qpoint = "int \<times> int"
type_synonym qpointf = "real \<times> real"

definition QPointF :: "qpoint \<Rightarrow> qpointf" where
  "QPointF p = (real_of_int (fst p), real_of_int (snd p))"

definition px :: "qpointf \<Rightarrow> real" where
  "px p = fst p"

definition py :: "qpointf \<Rightarrow> real" where
  "py p = snd p"

text \<open>
  A \<^verbatim>\<open>QImage\<close> that is not null: its size and its pixels, row by row (\<open>img_height\<close> rows
  of \<open>img_width\<close> pixels). \<^verbatim>\<open>pixel(ix, iy)\<close> reads, \<^verbatim>\<open>setPixel(x, y, c)\<close> writes one
  pixel, \<^verbatim>\<open>fill(c)\<close> writes them all. The program calls \<^verbatim>\<open>pixel\<close> and \<^verbatim>\<open>setPixel\<close> with
  coordinates inside the image only.
\<close>

record qimage =
  img_width :: int
  img_height :: int
  img_data :: "qrgb list list"

definition pixel :: "qimage \<Rightarrow> int \<Rightarrow> int \<Rightarrow> qrgb" where
  "pixel im ix iy = img_data im ! nat iy ! nat ix"

definition setPixel :: "nat \<Rightarrow> nat \<Rightarrow> qrgb \<Rightarrow> qimage \<Rightarrow> qimage" where
  "setPixel x y c im = im\<lparr>img_data := (img_data im)[y := (img_data im ! y)[x := c]]\<rparr>"

text \<open>
  \<^verbatim>\<open>QImage(w, h, QImage.Format_ARGB32)\<close>. The binding converts both arguments to C
  integers of 32 bits and raises when one does not fit. Qt then gives a null image
  (\<open>None\<close>) when the size is empty or it cannot obtain the buffer. The contents of a new
  image are arbitrary in Qt; here they are zero, and \<^verbatim>\<open>fill\<close> overwrites them before
  anything reads them.
\<close>

definition QImage :: "platform \<Rightarrow> int \<Rightarrow> int \<Rightarrow> error + qimage option" where
  "QImage p w h =
     (if w < - 2147483648 \<or> 2147483647 < w \<or> h < - 2147483648 \<or> 2147483647 < h
        then Inl OverflowError
      else if w \<le> 0 \<or> h \<le> 0 \<or> \<not> p_alloc p w h then Inr None
      else Inr (Some \<lparr>img_width = w, img_height = h,
                      img_data = replicate (nat h) (replicate (nat w) 0)\<rparr>))"

definition fill :: "qrgb \<Rightarrow> qimage \<Rightarrow> qimage" where
  "fill c im = im\<lparr>img_data := map (map (\<lambda>_. c)) (img_data im)\<rparr>"

text \<open>\<^verbatim>\<open>QColor(0, 0, 0)\<close> in an ARGB32 image: alpha 255, red, green and blue 0.\<close>

definition black :: qrgb where
  "black = 0xFF000000"

text \<open>
  A \<^verbatim>\<open>QPixmap\<close> handed to the canvas is null (nothing loaded, size 0 by 0) or gives an
  image under \<^verbatim>\<open>toImage()\<close>.
\<close>

datatype qpixmap = NullPixmap | Pixmap qimage

fun isNull :: "qpixmap \<Rightarrow> bool" where
  "isNull NullPixmap = True"
| "isNull (Pixmap im) = False"

fun pm_width :: "qpixmap \<Rightarrow> int" where
  "pm_width NullPixmap = 0"
| "pm_width (Pixmap im) = img_width im"

fun pm_height :: "qpixmap \<Rightarrow> int" where
  "pm_height NullPixmap = 0"
| "pm_height (Pixmap im) = img_height im"

fun toImage :: "qpixmap \<Rightarrow> qimage option" where
  "toImage NullPixmap = None"
| "toImage (Pixmap im) = Some im"

text \<open>
  What the canvas sends through its signal \<^verbatim>\<open>cropUpdated\<close>: the pixmap
  \<^verbatim>\<open>QPixmap.fromImage(result)\<close>, recorded by the image it was made from; the null pixmap
  when that image is null.
\<close>

datatype frame = NullFrame | FromImage qimage

datatype button = LeftButton | RightButton | MiddleButton | OtherButton nat

text \<open>
  Reading \<^verbatim>\<open>xs[i]\<close> from a Python list: an index below zero counts from the end, and an
  index outside the list raises.
\<close>

definition py_index :: "'a list \<Rightarrow> int \<Rightarrow> error + 'a" where
  "py_index xs i =
     (if 0 \<le> i \<and> i < int (length xs) then Inr (xs ! nat i)
      else if i < 0 \<and> - int (length xs) \<le> i then Inr (xs ! nat (int (length xs) + i))
      else Inl IndexError)"

section \<open>The canvas\<close>

text \<open>
  The fields of \<^verbatim>\<open>ImageCanvas\<close>. The timer is \<open>None\<close> when stopped and holds its
  interval in milliseconds when running. \<open>emitted\<close> is the sequence of frames sent
  through the signal \<^verbatim>\<open>cropUpdated\<close> so far. Requests to repaint (\<^verbatim>\<open>update()\<close>) and
  to resize the widget change no field and are left out.
\<close>

record canvas =
  image :: "qpixmap option"
  image_qimage :: "qimage option"
  path_points :: "qpointf list"
  drawing :: bool
  drone_index :: int
  playing :: bool
  rect_width_px :: pyfloat
  rect_height_px :: pyfloat
  timer :: "int option"
  emitted :: "frame list"

definition init :: canvas where
  "init = \<lparr>image = None, image_qimage = None, path_points = [], drawing = False,
            drone_index = 0, playing = False, rect_width_px = Fin 80, rect_height_px = Fin 80,
            timer = None, emitted = []\<rparr>"

definition setImage :: "qpixmap \<Rightarrow> canvas \<Rightarrow> canvas" where
  "setImage pixmap s =
     s\<lparr>image := Some pixmap,
       image_qimage := (if \<not> isNull pixmap then toImage pixmap else None),
       path_points := [],
       drawing := False,
       playing := False,
       drone_index := 0\<rparr>"

definition hasImage :: "canvas \<Rightarrow> bool" where
  "hasImage s = (image s \<noteq> None)"

definition hasPath :: "canvas \<Rightarrow> bool" where
  "hasPath s = (1 < length (path_points s))"

definition setRectangleSizePixels :: "pyfloat \<Rightarrow> pyfloat \<Rightarrow> canvas \<Rightarrow> canvas" where
  "setRectangleSizePixels w_px h_px s =
     s\<lparr>rect_width_px := py_max (Fin 4) w_px, rect_height_px := py_max (Fin 4) h_px\<rparr>"

definition stopAnimation :: "canvas \<Rightarrow> canvas" where
  "stopAnimation s = s\<lparr>timer := None, playing := False\<rparr>"

text \<open>
  \<^verbatim>\<open>_point_in_image\<close> first tests \<^verbatim>\<open>not self.image\<close>. No point is inside a null pixmap,
  whose width and height are 0, so the result does not depend on whether a null pixmap counts
  as false there.
\<close>

definition point_in_image :: "canvas \<Rightarrow> qpoint \<Rightarrow> bool" where
  "point_in_image s p =
     (case image s of
        None \<Rightarrow> False
      | Some pm \<Rightarrow> 0 \<le> fst p \<and> fst p < pm_width pm \<and> 0 \<le> snd p \<and> snd p < pm_height pm)"

definition mousePressEvent :: "button \<Rightarrow> qpoint \<Rightarrow> canvas \<Rightarrow> canvas" where
  "mousePressEvent b pos s =
     (if \<not> hasImage s then s
      else if b = LeftButton then
        (if point_in_image s pos
         then s\<lparr>path_points := [QPointF pos], drawing := True, drone_index := 0,
                playing := False, timer := None\<rparr>
         else s)
      else s)"

definition mouseMoveEvent :: "qpoint \<Rightarrow> canvas \<Rightarrow> canvas" where
  "mouseMoveEvent pos s =
     (if \<not> drawing s \<or> \<not> hasImage s then s
      else if point_in_image s pos
        then s\<lparr>path_points := path_points s @ [QPointF pos]\<rparr>
        else s)"

definition mouseReleaseEvent :: "button \<Rightarrow> canvas \<Rightarrow> canvas" where
  "mouseReleaseEvent b s = (if b = LeftButton then s\<lparr>drawing := False\<rparr> else s)"

section \<open>Heading, sampling and animation\<close>

definition heading_angle_deg :: "platform \<Rightarrow> canvas \<Rightarrow> int \<Rightarrow> error + real" where
  "heading_angle_deg p s idx =
     (if length (path_points s) < 2 then Inr 0
      else
        (case (if idx < int (length (path_points s)) - 1
               then py_index (path_points s) idx
               else py_index (path_points s) (idx - 1)) of
           Inl e \<Rightarrow> Inl e
         | Inr p1 \<Rightarrow>
             (case (if idx < int (length (path_points s)) - 1
                    then py_index (path_points s) (idx + 1)
                    else py_index (path_points s) idx) of
                Inl e \<Rightarrow> Inl e
              | Inr p2 \<Rightarrow>
                  (let dx = dsub (px p2) (px p1); dy = dsub (py p2) (py p1)
                   in if dx = 0 \<and> dy = 0 then Inr 0
                      else Inr (degrees (p_atan2 p dy dx))))))"

text \<open>
  The body of the inner loop of \<^verbatim>\<open>_emit_crop\<close>: destination pixel \<open>(x, y)\<close> of a
  \<open>w\<close> by \<open>h\<close> frame is taken from the source pixel nearest to its rotated position,
  and left as it is when that position is outside the source.
\<close>

definition crop_pixel ::
  "qimage \<Rightarrow> qpointf \<Rightarrow> real \<Rightarrow> real \<Rightarrow> int \<Rightarrow> int \<Rightarrow> nat \<Rightarrow> nat \<Rightarrow> qimage \<Rightarrow> qimage" where
  "crop_pixel src center cos_t sin_t w h y x result =
     (let ly = dsub (real y) (ddiv (real_of_int h) 2);
          lx = dsub (real x) (ddiv (real_of_int w) 2);
          gx = dsub (dadd (px center) (dmul cos_t lx)) (dmul sin_t ly);
          gy = dadd (dadd (py center) (dmul sin_t lx)) (dmul cos_t ly);
          ix = py_round gx;
          iy = py_round gy
      in if 0 \<le> ix \<and> ix < img_width src \<and> 0 \<le> iy \<and> iy < img_height src
         then setPixel x y (pixel src ix iy) result
         else result)"

text \<open>The two nested loops, \<open>y\<close> over \<^verbatim>\<open>range(h)\<close> and \<open>x\<close> over \<^verbatim>\<open>range(w)\<close>.\<close>

definition crop_loops ::
  "qimage \<Rightarrow> qpointf \<Rightarrow> real \<Rightarrow> real \<Rightarrow> int \<Rightarrow> int \<Rightarrow> qimage \<Rightarrow> qimage" where
  "crop_loops src center cos_t sin_t w h result =
     fold (\<lambda>y. fold (crop_pixel src center cos_t sin_t w h y) [0..<nat w]) [0..<nat h] result"

text \<open>
  \<^verbatim>\<open>_emit_crop\<close>. On a null result \<^verbatim>\<open>fill\<close> and \<^verbatim>\<open>setPixel\<close> do nothing and the pixmap
  made from it is null. An error leaves the canvas as it was.
\<close>

definition emit_crop :: "platform \<Rightarrow> canvas \<Rightarrow> error + canvas" where
  "emit_crop p s =
     (if \<not> hasImage s \<or> \<not> hasPath s then Inr s
      else
        (case image_qimage s of
           None \<Rightarrow> Inr s
         | Some src \<Rightarrow>
             (let idx = max 0 (min (drone_index s) (int (length (path_points s)) - 1))
              in case py_index (path_points s) idx of
                   Inl e \<Rightarrow> Inl e
                 | Inr center \<Rightarrow>
                     (case heading_angle_deg p s idx of
                        Inl e \<Rightarrow> Inl e
                      | Inr angle_deg \<Rightarrow>
                          (let angle_rad = radians angle_deg;
                               cos_t = p_cos p angle_rad;
                               sin_t = p_sin p angle_rad
                           in case int_of_float (rect_width_px s) of
                                Inl e \<Rightarrow> Inl e
                              | Inr w \<Rightarrow>
                                  (case int_of_float (rect_height_px s) of
                                     Inl e \<Rightarrow> Inl e
                                   | Inr h \<Rightarrow>
                                       (if w < 2 \<or> h < 2 then Inr s
                                        else
                                          (case QImage p w h of
                                             Inl e \<Rightarrow> Inl e
                                           | Inr None \<Rightarrow>
                                               Inr (s\<lparr>emitted := emitted s @ [NullFrame]\<rparr>)
                                           | Inr (Some blank) \<Rightarrow>
                                               (let result = fill black blank;
                                                    pix = crop_loops src center cos_t sin_t
                                                            w h result
                                                in Inr (s\<lparr>emitted :=
                                                     emitted s @ [FromImage pix]\<rparr>))))))))))"

text \<open>
  An operation that raises returns the error together with the canvas as the exception
  leaves it. \<^verbatim>\<open>QTimer.start\<close> takes a C integer of 32 bits and the binding raises when
  the interval does not fit.
\<close>

definition startAnimation :: "platform \<Rightarrow> int \<Rightarrow> canvas \<Rightarrow> error \<times> canvas + canvas" where
  "startAnimation p interval_ms s =
     (if \<not> hasImage s \<or> \<not> hasPath s then Inr s
      else
        (case emit_crop p (s\<lparr>drone_index := 0, playing := True\<rparr>) of
           Inl e \<Rightarrow> Inl (e, s\<lparr>drone_index := 0, playing := True\<rparr>)
         | Inr s' \<Rightarrow>
             (if 2147483647 < max 1 interval_ms then Inl (OverflowError, s')
              else Inr (s'\<lparr>timer := Some (max 1 interval_ms)\<rparr>))))"

definition on_timer :: "platform \<Rightarrow> canvas \<Rightarrow> error \<times> canvas + canvas" where
  "on_timer p s =
     (if \<not> hasPath s then Inr (stopAnimation s)
      else if drone_index s < int (length (path_points s)) - 1
        then (case emit_crop p (s\<lparr>drone_index := drone_index s + 1\<rparr>) of
                Inl e \<Rightarrow> Inl (e, s\<lparr>drone_index := drone_index s + 1\<rparr>)
              | Inr s' \<Rightarrow> Inr s')
        else Inr (stopAnimation s))"

text \<open>
  \<^verbatim>\<open>paintEvent\<close> reads the canvas only. Its result here is what it hands to
  \<^verbatim>\<open>_draw_drone_and_rect\<close>: the position and heading of the drone, when there is a path.
\<close>

definition paintEvent :: "platform \<Rightarrow> canvas \<Rightarrow> error + (qpointf \<times> real) option" where
  "paintEvent p s =
     (if hasPath s then
        (let idx = max 0 (min (drone_index s) (int (length (path_points s)) - 1))
         in case py_index (path_points s) idx of
              Inl e \<Rightarrow> Inl e
            | Inr drone_pos \<Rightarrow>
                (case heading_angle_deg p s idx of
                   Inl e \<Rightarrow> Inl e
                 | Inr angle_deg \<Rightarrow> Inr (Some (drone_pos, angle_deg))))
      else Inr None)"

section \<open>The main window\<close>

text \<open>
  \<^verbatim>\<open>MainWindow.start_play\<close>. Each text field is given as the float it parses to
  (\<^verbatim>\<open>float\<close> accepts \<^verbatim>\<open>inf\<close> and \<^verbatim>\<open>nan\<close>, and gives an infinity for a number out of
  range), or \<open>None\<close> when \<^verbatim>\<open>float(...)\<close> raises \<^verbatim>\<open>ValueError\<close>. The result is the
  warning shown, if any, and the canvas.
\<close>

datatype warning = NoImage | NoPath | InputError | FrequencyError

definition interval_ms :: "pyfloat \<Rightarrow> error + int" where
  "interval_ms freq =
     (case pf_div (Fin 1000) freq of
        Inl e \<Rightarrow> Inl e
      | Inr q \<Rightarrow> int_of_float q)"

definition start_play ::
  "platform \<Rightarrow> pyfloat option \<Rightarrow> pyfloat option \<Rightarrow> pyfloat option \<Rightarrow> pyfloat option \<Rightarrow>
     pyfloat option \<Rightarrow> canvas \<Rightarrow> error \<times> canvas + warning option \<times> canvas" where
  "start_play p altitude_edit rect_w_edit rect_h_edit zoom_edit freq_edit s =
     (if \<not> hasImage s then Inr (Some NoImage, s)
      else if \<not> hasPath s then Inr (Some NoPath, s)
      else
        (case (altitude_edit, rect_w_edit, rect_h_edit, zoom_edit, freq_edit) of
           (Some altitude, Some rect_w_m, Some rect_h_m, Some zoom, Some freq) \<Rightarrow>
             (if pf_le freq (Fin 0) then Inr (Some FrequencyError, s)
              else
                (let altitude' = (if pf_le altitude (Fin 0) then Fin 1 else altitude);
                     zoom' = (if pf_le zoom (Fin 0) then Fin 1 else zoom);
                     px_per_meter = pf_mul altitude' zoom';
                     rect_w_px = pf_mul rect_w_m px_per_meter;
                     rect_h_px = pf_mul rect_h_m px_per_meter;
                     s1 = setRectangleSizePixels rect_w_px rect_h_px s
                 in case interval_ms freq of
                      Inl e \<Rightarrow> Inl (e, s1)
                    | Inr i \<Rightarrow>
                        (case startAnimation p i s1 of
                           Inl es \<Rightarrow> Inl es
                         | Inr s' \<Rightarrow> Inr (None, s'))))
         | _ \<Rightarrow> Inr (Some InputError, s)))"

text \<open>
  \<^verbatim>\<open>MainWindow.load_image\<close>: \<open>chosen\<close> is the pixmap read from the file picked in the
  dialog, or \<open>None\<close> when the dialog is cancelled. A pixmap that failed to load is null
  and is not passed on.
\<close>

definition load_image :: "qpixmap option \<Rightarrow> canvas \<Rightarrow> canvas" where
  "load_image chosen s =
     (case chosen of
        None \<Rightarrow> s
      | Some pixmap \<Rightarrow> (if isNull pixmap then s else setImage pixmap s))"

section \<open>Reachable states\<close>

text \<open>
  The operations of the canvas that the main window, the mouse and the timer can invoke,
  in any order and with any arguments, starting from the freshly constructed canvas. The
  canvas an exception leaves behind counts as reached.
\<close>

datatype event =
    SetImage qpixmap
  | SetRectangleSizePixels pyfloat pyfloat
  | StartAnimation int
  | StopAnimation
  | MousePress button qpoint
  | MouseMove qpoint
  | MouseRelease button
  | Timer

fun step :: "platform \<Rightarrow> event \<Rightarrow> canvas \<Rightarrow> error \<times> canvas + canvas" where
  "step p (SetImage pm) s = Inr (setImage pm s)"
| "step p (SetRectangleSizePixels w h) s = Inr (setRectangleSizePixels w h s)"
| "step p (StartAnimation i) s = startAnimation p i s"
| "step p StopAnimation s = Inr (stopAnimation s)"
| "step p (MousePress b pos) s = Inr (mousePressEvent b pos s)"
| "step p (MouseMove pos) s = Inr (mouseMoveEvent pos s)"
| "step p (MouseRelease b) s = Inr (mouseReleaseEvent b s)"
| "step p Timer s = on_timer p s"

inductive reachable :: "platform \<Rightarrow> canvas \<Rightarrow> bool" for p :: platform where
  reachable_init: "reachable p init"
| reachable_step: "reachable p s \<Longrightarrow> step p e s = Inr s' \<Longrightarrow> reachable p s'"
| reachable_raise: "reachable p s \<Longrightarrow> step p e s = Inl (err, s') \<Longrightarrow> reachable p s'"

fun run :: "platform \<Rightarrow> event list \<Rightarrow> canvas \<Rightarrow> error \<times> canvas + canvas" where
  "run p [] s = Inr s"
| "run p (e # es) s = (case step p e s of Inl err \<Rightarrow> Inl err | Inr s' \<Rightarrow> run p es s')"

text \<open>What every reachable state satisfies (shown below).\<close>

fun dim_ok :: "pyfloat \<Rightarrow> bool" where
  "dim_ok (Fin r) = (4 \<le> r)"
| "dim_ok PInf = True"
| "dim_ok NInf = False"
| "dim_ok NaN = False"

definition canvas_inv :: "canvas \<Rightarrow> bool" where
  "canvas_inv s =
     (0 \<le> drone_index s \<and>
      (\<not> playing s \<or> drone_index s < int (length (path_points s))) \<and>
      dim_ok (rect_width_px s) \<and> dim_ok (rect_height_px s) \<and>
      (case image s of
         None \<Rightarrow> path_points s = []
       | Some NullPixmap \<Rightarrow> path_points s = [] \<and> image_qimage s = None
       | Some (Pixmap im) \<Rightarrow> image_qimage s = Some im))"

text \<open>
  A footprint fits when both dimensions are finite and truncate to integers that Qt's
  32-bit arguments can hold.
\<close>

fun fits_int32 :: "pyfloat \<Rightarrow> bool" where
  "fits_int32 (Fin r) = (py_int r \<le> 2147483647)"
| "fits_int32 PInf = False"
| "fits_int32 NInf = False"
| "fits_int32 NaN = False"

definition footprint_fits :: "canvas \<Rightarrow> bool" where
  "footprint_fits s = (fits_int32 (rect_width_px s) \<and> fits_int32 (rect_height_px s))"

section \<open>The sampling rule as the specification words it\<close>

text \<open>
  The specification of the frame sampler, pixel by pixel: the local offset of destination
  pixel \<open>(x, y)\<close> from the centre of a \<open>w\<close> by \<open>h\<close> rectangle, rotated by \<open>theta\<close>
  (radians) about \<open>center\<close>, rounded to a source pixel; the colour of that pixel when it
  is inside the raster, and opaque black otherwise. The arithmetic is that of doubles, sine
  and cosine are the platform's, and rounding is \<^const>\<open>py_round\<close>.
\<close>

definition spec_sample_pixel ::
  "platform \<Rightarrow> qimage \<Rightarrow> qpointf \<Rightarrow> real \<Rightarrow> int \<Rightarrow> int \<Rightarrow> int \<Rightarrow> int \<Rightarrow> qrgb" where
  "spec_sample_pixel p raster center theta w h x y =
     (let lx = dsub (real_of_int x) (ddiv (real_of_int w) 2);
          ly = dsub (real_of_int y) (ddiv (real_of_int h) 2);
          gx = dsub (dadd (fst center) (dmul (p_cos p theta) lx)) (dmul (p_sin p theta) ly);
          gy = dadd (dadd (snd center) (dmul (p_sin p theta) lx)) (dmul (p_cos p theta) ly)
      in if 0 \<le> py_round gx \<and> py_round gx < img_width raster \<and>
            0 \<le> py_round gy \<and> py_round gy < img_height raster
         then pixel raster (py_round gx) (py_round gy)
         else 0xFF000000)"

section \<open>A small session\<close>

text \<open>
  A platform whose sine, cosine and arc tangent are the exact values rounded to doubles,
  and which gives image buffers below two gibibytes.
\<close>

definition arctan2 :: "real \<Rightarrow> real \<Rightarrow> real" where
  "arctan2 y x =
     (if 0 < x then arctan (y / x)
      else if x < 0 then (if 0 \<le> y then arctan (y / x) + pi else arctan (y / x) - pi)
      else if 0 < y then pi / 2
      else if y < 0 then - (pi / 2)
      else 0)"

definition demo_platform :: platform where
  "demo_platform =
     \<lparr>p_cos = (\<lambda>x. fl (cos x)), p_sin = (\<lambda>x. fl (sin x)),
      p_atan2 = (\<lambda>y x. fl (arctan2 y x)),
      p_alloc = (\<lambda>w h. w * h * 4 < 2147483648)\<rparr>"

text \<open>
  A two by two raster, a footprint of four by four pixels, a path of two points drawn
  from the top left corner to its right neighbour, and the animation started: the first
  frame shows the raster in its lower right quarter, black around it.
\<close>

definition demo_raster :: qimage where
  "demo_raster = \<lparr>img_width = 2, img_height = 2, img_data = [[1, 2], [3, 4]]\<rparr>"

definition demo_events :: "event list" where
  "demo_events =
     [SetImage (Pixmap demo_raster), SetRectangleSizePixels (Fin 4) (Fin 4),
      MousePress LeftButton (0, 0), MouseMove (1, 0), MouseRelease LeftButton,
      StartAnimation 500]"

definition demo_frame :: qimage where
  "demo_frame =
     \<lparr>img_width = 4, img_height = 4,
      img_data = [[0xFF000000, 0xFF000000, 0xFF000000, 0xFF000000],
                  [0xFF000000, 0xFF000000, 0xFF000000, 0xFF000000],
                  [0xFF000000, 0xFF000000, 1, 2],
                  [0xFF000000, 0xFF000000, 3, 4]]\<rparr>"

definition demo_drawn :: canvas where
  "demo_drawn =
     \<lparr>image = Some (Pixmap demo_raster), image_qimage = Some demo_raster,
      path_points = [(0, 0), (1, 0)], drawing = False, drone_index = 0, playing = False,
      rect_width_px = Fin 4, rect_height_px = Fin 4, timer = None, emitted = []\<rparr>"

definition demo_playing :: canvas where
  "demo_playing =
     \<lparr>image = Some (Pixmap demo_raster), image_qimage = Some demo_raster,
      path_points = [(0, 0), (1, 0)], drawing = False, drone_index = 0, playing = True,
      rect_width_px = Fin 4, rect_height_px = Fin 4, timer = Some 500,
      emitted = [FromImage demo_frame]\<rparr>"

section \<open>Rounding\<close>

lemma py_round_of_int [simp]: "py_round (real_of_int k) = k"
  by (simp add: py_round_def)

lemma fl_zero [simp]: "fl 0 = 0"
  by (simp add: fl_def)

lemma floor_log2_eq:
  assumes "2 powi e \<le> \<bar>x\<bar>" and "\<bar>x\<bar> < 2 powi (e + 1)"
  shows "\<lfloor>log 2 \<bar>x\<bar>\<rfloor> = e"
proof -
  have "0 < (2::real) powi e" by simp
  with assms(1) have pos: "0 < \<bar>x\<bar>" by linarith
  have a: "(2::real) powr real_of_int e = 2 powi e" by (simp add: powr_real_of_int')
  have b: "(2::real) powr (real_of_int e + 1) = 2 powi (e + 1)"
    using powr_real_of_int'[of "2::real" "e + 1"] by simp
  show ?thesis
    using floor_log_eq_powr_iff[of "\<bar>x\<bar>" 2 e] pos assms by (simp add: a b)
qed

lemma fl_eval:
  assumes "2 powi e \<le> \<bar>x\<bar>" and "\<bar>x\<bar> < 2 powi (e + 1)"
  shows "fl x = real_of_int (py_round (x / 2 powi max (e - 52) (- 1074))) * 2 powi max (e - 52) (- 1074)"
proof -
  have "0 < (2::real) powi e" by simp
  with assms(1) have "0 < \<bar>x\<bar>" by linarith
  then have "x \<noteq> 0" by auto
  then show ?thesis by (simp add: fl_def floor_log2_eq[OF assms] Let_def)
qed

lemma floor_log2_less:
  assumes "x \<noteq> 0" and "\<bar>x\<bar> < 2 powi k"
  shows "\<lfloor>log 2 \<bar>x\<bar>\<rfloor> < k"
proof -
  have "log 2 \<bar>x\<bar> < real_of_int k"
    using assms powr_real_of_int'[of "2::real" k] by (simp add: log_less_iff)
  then show ?thesis by (simp add: floor_less_iff)
qed

lemma fl_dyadic:
  assumes k: "\<bar>k\<bar> < 2 ^ 53" and n: "n \<le> 1074"
  shows "fl (real_of_int k / 2 ^ n) = real_of_int k / 2 ^ n"
proof (cases "k = 0")
  case True
  then show ?thesis by simp
next
  case False
  let ?x = "real_of_int k / 2 ^ n"
  have x0: "?x \<noteq> 0" using False by simp
  have "\<bar>?x\<bar> = real_of_int \<bar>k\<bar> / 2 ^ n" by (simp add: abs_divide)
  also have "\<dots> < 2 ^ 53 / 2 ^ n"
  proof -
    have "real_of_int \<bar>k\<bar> < 2 ^ 53" using k by (metis of_int_less_numeral_power_cancel_iff)
    then show ?thesis by (simp add: divide_strict_right_mono)
  qed
  also have "\<dots> = 2 powi (53 - int n)" by (simp add: power_int_diff)
  finally have "\<lfloor>log 2 \<bar>?x\<bar>\<rfloor> < 53 - int n" using floor_log2_less[OF x0] by blast
  then have s: "max (\<lfloor>log 2 \<bar>?x\<bar>\<rfloor> - 52) (- 1074) \<le> - int n" using n by simp
  define s where "s = max (\<lfloor>log 2 \<bar>?x\<bar>\<rfloor> - 52) (- 1074)"
  define t where "t = nat (- int n - s)"
  have ts: "int t = - int n - s" using s by (simp add: t_def s_def)
  have "(2::real) powi (int t) = 2 powi (- int n - s)" by (simp only: ts)
  then have p: "(2::real) ^ t = 2 powi (- int n) / 2 powi s"
    by (simp add: power_int_diff)
  have "?x / 2 powi s = real_of_int k * (2 powi (- int n) / 2 powi s)"
    by (simp add: power_int_minus field_simps)
  also have "\<dots> = real_of_int (k * 2 ^ t)" by (simp add: p[symmetric])
  finally have q: "?x / 2 powi s = real_of_int (k * 2 ^ t)" .
  have "fl ?x = real_of_int (py_round (?x / 2 powi s)) * 2 powi s"
    using x0 by (simp add: fl_def s_def Let_def)
  also have "\<dots> = real_of_int (k * 2 ^ t) * 2 powi s" by (simp only: q py_round_of_int)
  also have "\<dots> = ?x / 2 powi s * 2 powi s" by (simp only: q)
  also have "\<dots> = ?x" by simp
  finally show ?thesis .
qed

lemma fl_of_int: "\<bar>k\<bar> < 2 ^ 53 \<Longrightarrow> fl (real_of_int k) = real_of_int k"
  using fl_dyadic[of k 0] by simp

lemma fl_numeral [simp]: "numeral n < (2::int) ^ 53 \<Longrightarrow> fl (numeral n) = numeral n"
  using fl_of_int[of "numeral n"] by simp

lemma fl_neg_numeral [simp]: "numeral n < (2::int) ^ 53 \<Longrightarrow> fl (- numeral n) = - numeral n"
  using fl_of_int[of "- numeral n"] by simp

lemma fl_one [simp]: "fl 1 = 1"
  using fl_of_int[of 1] by simp

lemma fl_neg_one [simp]: "fl (- 1) = - 1"
  using fl_of_int[of "- 1"] by simp

lemma fl_half_numeral [simp]: "numeral n < (2::int) ^ 53 \<Longrightarrow> fl (numeral n / 2) = numeral n / 2"
  using fl_dyadic[of "numeral n" 1] by simp

lemma fl_neg_half_numeral [simp]:
  "numeral n < (2::int) ^ 53 \<Longrightarrow> fl (- (numeral n / 2)) = - (numeral n / 2)"
  using fl_dyadic[of "- numeral n" 1] by simp

lemma fl_half [simp]: "fl (1 / 2) = 1 / 2"
  using fl_dyadic[of 1 1] by simp

lemma fl_neg_half [simp]: "fl (- (1 / 2)) = - (1 / 2)"
  using fl_dyadic[of "- 1" 1] by simp


lemma py_round_half:
  assumes "g - real_of_int \<lfloor>g\<rfloor> = 1 / 2"
  shows "py_round g = (if even \<lfloor>g\<rfloor> then \<lfloor>g\<rfloor> else \<lfloor>g\<rfloor> + 1)"
  using assms by (simp add: py_round_def Let_def)

lemma py_round_ge_floor: "\<lfloor>x\<rfloor> \<le> py_round x"
  by (simp add: py_round_def Let_def)


lemma py_round_nearest: "\<bar>x - real_of_int (py_round x)\<bar> \<le> 1 / 2"
proof -
  have "real_of_int \<lfloor>x\<rfloor> \<le> x" "x < real_of_int \<lfloor>x\<rfloor> + 1" by linarith+
  then show ?thesis by (auto simp: py_round_def Let_def abs_le_iff)
qed

lemma py_int_floor: "0 \<le> x \<Longrightarrow> py_int x = \<lfloor>x\<rfloor>"
  by (simp add: py_int_def)

lemma py_round_le_ceiling: "py_round x \<le> \<lceil>x\<rceil>"
proof (cases "x = real_of_int \<lfloor>x\<rfloor>")
  case True
  then have "py_round x = \<lfloor>x\<rfloor>" by (simp add: py_round_def Let_def)
  then show ?thesis by (simp add: floor_le_ceiling)
next
  case False
  then have "\<lceil>x\<rceil> = \<lfloor>x\<rfloor> + 1" by (metis ceiling_altdef of_int_floor_cancel)
  moreover have "py_round x \<le> \<lfloor>x\<rfloor> + 1" by (simp add: py_round_def Let_def)
  ultimately show ?thesis by simp
qed

lemma py_round_nonzero:
  assumes "1 \<le> \<bar>q\<bar>"
  shows "py_round q \<noteq> 0"
proof (cases "0 \<le> q")
  case True
  with assms have "1 \<le> q" by simp
  then have "1 \<le> \<lfloor>q\<rfloor>" by simp
  with py_round_ge_floor[of q] show ?thesis by linarith
next
  case False
  with assms have "q \<le> - 1" by simp
  then have "\<lceil>q\<rceil> \<le> - 1" by (simp add: ceiling_le_iff)
  with py_round_le_ceiling[of q] show ?thesis by linarith
qed

lemma fl_grid:
  assumes "fl x = x"
  shows "\<exists>m::int. x = real_of_int m * 2 powi (- 1074)"
proof (cases "x = 0")
  case True
  then show ?thesis by (intro exI[of _ 0]) simp
next
  case False
  define s where "s = max (\<lfloor>log 2 \<bar>x\<bar>\<rfloor> - 52) (- 1074)"
  have s: "- 1074 \<le> s" by (simp add: s_def)
  from False assms have x: "x = real_of_int (py_round (x / 2 powi s)) * 2 powi s"
    by (simp add: fl_def s_def Let_def)
  have "(2::real) powi s = 2 powi ((s + 1074) + (- 1074))" by simp
  also have "\<dots> = 2 powi (s + 1074) * 2 powi (- 1074)"
    by (subst power_int_add) simp_all
  also have "(2::real) powi (s + 1074) = 2 ^ nat (s + 1074)"
    using s by (simp add: power_int_def)
  finally have "(2::real) powi s = real_of_int (2 ^ nat (s + 1074)) * 2 powi (- 1074)" by simp
  with x have "x = real_of_int (py_round (x / 2 powi s) * 2 ^ nat (s + 1074)) * 2 powi (- 1074)"
    by (metis (no_types, opaque_lifting) mult.assoc of_int_mult)
  then show ?thesis by blast
qed

lemma fl_nonzero_on_grid:
  assumes "x \<noteq> 0" and "x = real_of_int m * 2 powi (- 1074)"
  shows "fl x \<noteq> 0"
proof -
  from assms have m: "m \<noteq> 0" by auto
  then have "1 \<le> \<bar>m\<bar>" by simp
  then have "1 \<le> real_of_int \<bar>m\<bar>" by (simp only: of_int_1_le_iff)
  then have "1 \<le> \<bar>real_of_int m\<bar>" by simp
  then have lo: "2 powi (- 1074) \<le> \<bar>x\<bar>"
    unfolding assms(2) abs_mult by (simp add: mult_le_cancel_right1)
  define e where "e = \<lfloor>log 2 \<bar>x\<bar>\<rfloor>"
  have pos: "0 < \<bar>x\<bar>" using assms(1) by simp
  have "(2::real) powr real_of_int e \<le> \<bar>x\<bar>"
    using floor_log_eq_powr_iff[of "\<bar>x\<bar>" 2 e] pos by (simp add: e_def)
  then have ex: "2 powi e \<le> \<bar>x\<bar>" by (simp add: powr_real_of_int')
  have "real_of_int (- 1074) \<le> log 2 \<bar>x\<bar>"
    using lo pos powr_real_of_int'[of "2::real" "- 1074"] by (simp add: le_log_iff)
  then have e: "- 1074 \<le> e" unfolding e_def by (simp add: le_floor_iff)
  define s where "s = max (e - 52) (- 1074)"
  have se: "s \<le> e" using e by (simp add: s_def)
  have "(2::real) powi s \<le> 2 powi e" using se by (simp add: power_int_increasing)
  with ex have "2 powi s \<le> \<bar>x\<bar>" by linarith
  then have "1 \<le> \<bar>x / 2 powi s\<bar>" by (simp add: abs_divide le_divide_eq)
  then have "py_round (x / 2 powi s) \<noteq> 0" by (rule py_round_nonzero)
  moreover have "fl x = real_of_int (py_round (x / 2 powi s)) * 2 powi s"
    using assms(1) by (simp add: fl_def s_def e_def Let_def)
  ultimately show ?thesis by simp
qed

lemma dsub_nonzero:
  assumes "is_double a" "is_double b" "a \<noteq> b"
  shows "dsub a b \<noteq> 0"
proof -
  from assms(1) fl_grid[of a] obtain m where m: "a = real_of_int m * 2 powi (- 1074)"
    by (auto simp: is_double_def)
  from assms(2) fl_grid[of b] obtain n where n: "b = real_of_int n * 2 powi (- 1074)"
    by (auto simp: is_double_def)
  have "a - b = real_of_int (m - n) * 2 powi (- 1074)"
    by (simp add: m n algebra_simps)
  moreover have "a - b \<noteq> 0" using assms(3) by simp
  ultimately show ?thesis unfolding dsub_def by (rule fl_nonzero_on_grid[rotated])
qed

lemma is_double_of_int: "\<bar>k\<bar> < 2 ^ 53 \<Longrightarrow> is_double (real_of_int k)"
proof -
  assume k: "\<bar>k\<bar> < 2 ^ 53"
  then have "real_of_int \<bar>k\<bar> < 2 ^ 53" by (simp only: of_int_less_numeral_power_cancel_iff)
  then have "\<bar>real_of_int k\<bar> < 2 ^ 53" by simp
  also have "(2::real) ^ 53 < 2 ^ 1024" by simp
  finally show ?thesis using fl_of_int[OF k] by (simp add: is_double_def)
qed

section \<open>Doubles at work\<close>

text \<open>
  Three results that exact arithmetic would give otherwise: 1000 divided by 1.5 and by the
  double nearest to 0.1, and that double nearest to 0.7 times 10, a tie that rounds to 7.
\<close>

lemma fl_two_thirds_of_thousand: "fl (1000 / (3 / 2)) = 5864062014805333 / 8796093022208"
proof -
  have "fl (1000 / (3 / 2)) =
    real_of_int (py_round ((1000 / (3 / 2)) / 2 powi max (9 - 52) (- 1074))) * 2 powi max (9 - 52) (- 1074)"
    by (rule fl_eval) simp_all
  also have "\<dots> = 5864062014805333 / 8796093022208" by (simp add: py_round_def Let_def)
  finally show ?thesis .
qed

lemma fl_thousand_by_tenth: "fl (1000 / (3602879701896397 / 2 ^ 55)) = 10000"
proof -
  have "fl (1000 / (3602879701896397 / 2 ^ 55)) =
    real_of_int (py_round ((1000 / (3602879701896397 / 2 ^ 55)) / 2 powi max (13 - 52) (- 1074))) * 2 powi max (13 - 52) (- 1074)"
    by (rule fl_eval) simp_all
  also have "\<dots> = 10000" by (simp add: py_round_def Let_def)
  finally show ?thesis .
qed

lemma seven_tenths_times_ten: "pf_mul (Fin (3152519739159347 / 2 ^ 52)) (Fin 10) = Fin 7"
proof -
  have "fl (3152519739159347 / 2 ^ 52 * 10) =
    real_of_int (py_round ((3152519739159347 / 2 ^ 52 * 10) / 2 powi max (2 - 52) (- 1074))) * 2 powi max (2 - 52) (- 1074)"
    by (rule fl_eval) simp_all
  also have "\<dots> = 7" by (simp add: py_round_def Let_def)
  finally show ?thesis by (simp add: to_double_def)
qed

lemma interval_ms_finite:
  assumes "0 < f"
  shows "(fl (1000 / f) < 2 ^ 1024 \<longrightarrow> interval_ms (Fin f) = Inr \<lfloor>fl (1000 / f)\<rfloor>) \<and>
         (2 ^ 1024 \<le> fl (1000 / f) \<longrightarrow> interval_ms (Fin f) = Inl OverflowError)"
proof -
  have "0 < 1000 / f" using assms by simp
  have nn: "0 \<le> fl (1000 / f)"
  proof -
    have "0 \<le> py_round (1000 / f / 2 powi s)" for s
    proof -
      have "0 \<le> 1000 / f / 2 powi s" using assms by simp
      then have "0 \<le> \<lfloor>1000 / f / 2 powi s\<rfloor>" by simp
      with py_round_ge_floor[of "1000 / f / 2 powi s"] show ?thesis by linarith
    qed
    then show ?thesis by (simp add: fl_def Let_def)
  qed
  then have "\<not> fl (1000 / f) \<le> - (2 ^ 1024)" by (smt (verit) zero_less_power)
  with nn assms show ?thesis
    by (auto simp: interval_ms_def to_double_def py_int_def)
qed

section \<open>The sampling loops\<close>

text \<open>
  Writing one pixel changes that pixel only and keeps the shape of the buffer; the inner
  loop therefore settles one row, the outer loop all rows.
\<close>

lemma setPixel_simps:
  "img_width (setPixel x y c im) = img_width im"
  "img_height (setPixel x y c im) = img_height im"
  "img_data (setPixel x y c im) = (img_data im)[y := (img_data im ! y)[x := c]]"
  by (simp_all add: setPixel_def)

lemma setPixel_length: "length (img_data (setPixel x y c im)) = length (img_data im)"
  by (simp add: setPixel_simps)

lemma setPixel_row_length:
  "length (img_data (setPixel x y c im) ! j) = length (img_data im ! j)"
  by (cases "y < length (img_data im)"; cases "j = y") (simp_all add: setPixel_simps list_update_beyond)

lemma setPixel_nth:
  "y < length (img_data im) \<Longrightarrow> x < length (img_data im ! y) \<Longrightarrow>
   img_data (setPixel x y c im) ! j ! i = (if j = y \<and> i = x then c else img_data im ! j ! i)"
  by (cases "j = y"; cases "i = x") (simp_all add: setPixel_simps)

lemma row_fold:
  assumes g: "\<And>x r. g x r = (case t x of None \<Rightarrow> r | Some c \<Rightarrow> setPixel x y c r)"
    and y: "y < length (img_data r)"
    and n: "n \<le> length (img_data r ! y)"
  shows "img_width (fold g [0..<n] r) = img_width r \<and>
         img_height (fold g [0..<n] r) = img_height r \<and>
         length (img_data (fold g [0..<n] r)) = length (img_data r) \<and>
         (\<forall>j. length (img_data (fold g [0..<n] r) ! j) = length (img_data r ! j)) \<and>
         (\<forall>j i. img_data (fold g [0..<n] r) ! j ! i =
            (if j = y \<and> i < n then (case t i of None \<Rightarrow> img_data r ! j ! i | Some c \<Rightarrow> c)
             else img_data r ! j ! i))"
  using n
proof (induction n)
  case 0
  then show ?case by simp
next
  case (Suc n)
  let ?r = "fold g [0..<n] r"
  from Suc have IH: "img_width ?r = img_width r" "img_height ?r = img_height r"
    "length (img_data ?r) = length (img_data r)"
    "\<And>j. length (img_data ?r ! j) = length (img_data r ! j)"
    "\<And>j i. img_data ?r ! j ! i =
            (if j = y \<and> i < n then (case t i of None \<Rightarrow> img_data r ! j ! i | Some c \<Rightarrow> c)
             else img_data r ! j ! i)"
    by simp_all
  have step: "fold g [0..<Suc n] r = g n ?r" by simp
  show ?case
  proof (cases "t n")
    case None
    then have "g n ?r = ?r" by (simp add: g)
    with IH None show ?thesis unfolding step by (auto simp: less_Suc_eq)
  next
    case (Some c)
    then have e: "g n ?r = setPixel n y c ?r" by (simp add: g)
    have yy: "y < length (img_data ?r)" using y IH by simp
    have nn: "n < length (img_data ?r ! y)" using Suc.prems IH by simp
    show ?thesis unfolding step e
      using IH Some by (auto simp: setPixel_simps(1,2) setPixel_length setPixel_row_length setPixel_nth[OF yy nn] less_Suc_eq)
  qed
qed

lemma crop_pixel_case:
  "crop_pixel src center cos_t sin_t w h y x r =
     (case (let ix = py_round (dsub (dadd (px center) (dmul cos_t (dsub (real x) (ddiv (real_of_int w) 2))))
                                 (dmul sin_t (dsub (real y) (ddiv (real_of_int h) 2))));
                iy = py_round (dadd (dadd (py center) (dmul sin_t (dsub (real x) (ddiv (real_of_int w) 2))))
                                 (dmul cos_t (dsub (real y) (ddiv (real_of_int h) 2))))
            in if 0 \<le> ix \<and> ix < img_width src \<and> 0 \<le> iy \<and> iy < img_height src
               then Some (pixel src ix iy) else None) of
        None \<Rightarrow> r | Some c \<Rightarrow> setPixel x y c r)"
  by (simp add: crop_pixel_def Let_def)

lemma rows_fold:
  assumes G: "\<And>y r. y < length (img_data r) \<Longrightarrow> (\<forall>j<length (img_data r). length (img_data r ! j) = w) \<Longrightarrow>
         img_width (G y r) = img_width r \<and>
         img_height (G y r) = img_height r \<and>
         length (img_data (G y r)) = length (img_data r) \<and>
         (\<forall>j. length (img_data (G y r) ! j) = length (img_data r ! j)) \<and>
         (\<forall>j i. img_data (G y r) ! j ! i =
            (if j = y \<and> i < w then (case t y i of None \<Rightarrow> img_data r ! j ! i | Some c \<Rightarrow> c)
             else img_data r ! j ! i))"
    and rows: "\<forall>j<length (img_data r). length (img_data r ! j) = w"
    and m: "m \<le> length (img_data r)"
  shows "img_width (fold G [0..<m] r) = img_width r \<and>
         img_height (fold G [0..<m] r) = img_height r \<and>
         length (img_data (fold G [0..<m] r)) = length (img_data r) \<and>
         (\<forall>j. length (img_data (fold G [0..<m] r) ! j) = length (img_data r ! j)) \<and>
         (\<forall>j i. img_data (fold G [0..<m] r) ! j ! i =
            (if j < m \<and> i < w then (case t j i of None \<Rightarrow> img_data r ! j ! i | Some c \<Rightarrow> c)
             else img_data r ! j ! i))"
  using m
proof (induction m)
  case 0
  then show ?case by simp
next
  case (Suc m)
  let ?r = "fold G [0..<m] r"
  from Suc have IH: "img_width ?r = img_width r" "img_height ?r = img_height r"
    "length (img_data ?r) = length (img_data r)"
    "\<And>j. length (img_data ?r ! j) = length (img_data r ! j)"
    "\<And>j i. img_data ?r ! j ! i =
            (if j < m \<and> i < w then (case t j i of None \<Rightarrow> img_data r ! j ! i | Some c \<Rightarrow> c)
             else img_data r ! j ! i)"
    by simp_all
  have step: "fold G [0..<Suc m] r = G m ?r" by simp
  have a: "m < length (img_data ?r)" using Suc.prems IH(3) by simp
  have b: "\<forall>j<length (img_data ?r). length (img_data ?r ! j) = w"
    using rows IH(3,4) by simp
  note g = G[OF a b]
  show ?case unfolding step using g IH
    by (auto simp: less_Suc_eq split: option.splits)
qed

lemma crop_loops_frame:
  assumes res_def: "res = crop_loops src center cos_t sin_t w h
            (fill black \<lparr>img_width = w, img_height = h,
                          img_data = replicate (nat h) (replicate (nat w) 0)\<rparr>)"
  shows "img_width res = w \<and> img_height res = h \<and>
         length (img_data res) = nat h \<and>
         (\<forall>j<nat h. length (img_data res ! j) = nat w) \<and>
         (\<forall>j i. j < nat h \<longrightarrow> i < nat w \<longrightarrow>
            img_data res ! j ! i =
              (case (let ix = py_round (dsub (dadd (px center) (dmul cos_t (dsub (real i) (ddiv (real_of_int w) 2))))
                                 (dmul sin_t (dsub (real j) (ddiv (real_of_int h) 2))));
                iy = py_round (dadd (dadd (py center) (dmul sin_t (dsub (real i) (ddiv (real_of_int w) 2))))
                                 (dmul cos_t (dsub (real j) (ddiv (real_of_int h) 2))))
            in if 0 \<le> ix \<and> ix < img_width src \<and> 0 \<le> iy \<and> iy < img_height src
               then Some (pixel src ix iy) else None) of None \<Rightarrow> black | Some c \<Rightarrow> c))"
proof -
  let ?r0 = "fill black \<lparr>img_width = w, img_height = h,
                          img_data = replicate (nat h) (replicate (nat w) 0)\<rparr>"
  let ?t = "\<lambda>j i. (let ix = py_round (dsub (dadd (px center) (dmul cos_t (dsub (real i) (ddiv (real_of_int w) 2))))
                                 (dmul sin_t (dsub (real j) (ddiv (real_of_int h) 2))));
                iy = py_round (dadd (dadd (py center) (dmul sin_t (dsub (real i) (ddiv (real_of_int w) 2))))
                                 (dmul cos_t (dsub (real j) (ddiv (real_of_int h) 2))))
            in if 0 \<le> ix \<and> ix < img_width src \<and> 0 \<le> iy \<and> iy < img_height src
               then Some (pixel src ix iy) else None)"
  let ?G = "\<lambda>y. fold (crop_pixel src center cos_t sin_t w h y) [0..<nat w]"
  have r0: "img_width ?r0 = w" "img_height ?r0 = h" "length (img_data ?r0) = nat h"
    "\<forall>j<length (img_data ?r0). length (img_data ?r0 ! j) = nat w"
    "\<And>j i. j < nat h \<Longrightarrow> i < nat w \<Longrightarrow> img_data ?r0 ! j ! i = black"
    by (simp_all add: fill_def)
  have G: "img_width (?G y r) = img_width r \<and>
         img_height (?G y r) = img_height r \<and>
         length (img_data (?G y r)) = length (img_data r) \<and>
         (\<forall>j. length (img_data (?G y r) ! j) = length (img_data r ! j)) \<and>
         (\<forall>j i. img_data (?G y r) ! j ! i =
            (if j = y \<and> i < nat w then (case ?t y i of None \<Rightarrow> img_data r ! j ! i | Some c \<Rightarrow> c)
             else img_data r ! j ! i))"
    if "y < length (img_data r)" "\<forall>j<length (img_data r). length (img_data r ! j) = nat w" for y r
    by (rule row_fold[where t = "?t y"]) (use that in \<open>simp_all add: crop_pixel_case\<close>)
  have "img_width (fold ?G [0..<nat h] ?r0) = img_width ?r0 \<and>
         img_height (fold ?G [0..<nat h] ?r0) = img_height ?r0 \<and>
         length (img_data (fold ?G [0..<nat h] ?r0)) = length (img_data ?r0) \<and>
         (\<forall>j. length (img_data (fold ?G [0..<nat h] ?r0) ! j) = length (img_data ?r0 ! j)) \<and>
         (\<forall>j i. img_data (fold ?G [0..<nat h] ?r0) ! j ! i =
            (if j < nat h \<and> i < nat w then (case ?t j i of None \<Rightarrow> img_data ?r0 ! j ! i | Some c \<Rightarrow> c)
             else img_data ?r0 ! j ! i))"
    by (rule rows_fold[where t = ?t, OF G r0(4)]) (simp_all add: r0(3))
  moreover have "res = fold ?G [0..<nat h] ?r0"
    by (simp add: res_def crop_loops_def)
  ultimately show ?thesis
    using r0 by (simp split: option.splits)
qed

section \<open>Reading the path and sampling\<close>

lemma py_index_in_range:
  "0 \<le> i \<Longrightarrow> i < int (length xs) \<Longrightarrow> py_index xs i = Inr (xs ! nat i)"
  by (simp add: py_index_def)

lemma clamped_bounds:
  "1 < length ps \<Longrightarrow>
   0 \<le> max 0 (min i (int (length ps) - 1)) \<and> max 0 (min i (int (length ps) - 1)) < int (length ps)"
  by auto

lemma clamped_lookup:
  "1 < length ps \<Longrightarrow>
   py_index ps (max 0 (min i (int (length ps) - 1))) = Inr (ps ! nat (max 0 (min i (int (length ps) - 1))))"
  by (rule py_index_in_range) auto

lemma heading_defined:
  assumes "0 \<le> idx" "idx < int (length (path_points s))"
  shows "\<exists>a. heading_angle_deg p s idx = Inr a"
proof (cases "length (path_points s) < 2")
  case True
  then show ?thesis by (simp add: heading_angle_deg_def)
next
  case False
  show ?thesis
  proof (cases "idx < int (length (path_points s)) - 1")
    case True
    then have "py_index (path_points s) idx = Inr (path_points s ! nat idx)"
      "py_index (path_points s) (idx + 1) = Inr (path_points s ! nat (idx + 1))"
      using assms by (simp_all add: py_index_in_range)
    with True False show ?thesis by (simp add: heading_angle_deg_def Let_def)
  next
    case F: False
    then have "py_index (path_points s) idx = Inr (path_points s ! nat idx)"
      "py_index (path_points s) (idx - 1) = Inr (path_points s ! nat (idx - 1))"
      using assms False by (simp_all add: py_index_in_range)
    with F False show ?thesis by (simp add: heading_angle_deg_def Let_def)
  qed
qed

lemma paintEvent_total: "\<exists>r. paintEvent p s = Inr r"
proof (cases "hasPath s")
  case False
  then show ?thesis by (simp add: paintEvent_def)
next
  case True
  let ?idx = "max 0 (min (drone_index s) (int (length (path_points s)) - 1))"
  from True have len: "1 < length (path_points s)" by (simp add: hasPath_def)
  note c = clamped_lookup[OF len, of "drone_index s"]
  from clamped_bounds[OF len, of "drone_index s"] heading_defined[of ?idx s p]
  obtain a where a: "heading_angle_deg p s ?idx = Inr a" by blast
  show ?thesis using True c a by (simp add: paintEvent_def Let_def)
qed

text \<open>
  Once the canvas has an image, a raster and a path, what \<^verbatim>\<open>_emit_crop\<close> does depends on
  the two dimensions only.
\<close>

lemma emit_crop_guard:
  "\<not> (hasImage s \<and> hasPath s \<and> image_qimage s \<noteq> None) \<Longrightarrow> emit_crop p s = Inr s"
  by (auto simp: emit_crop_def)

lemma emit_crop_dims:
  assumes "hasImage s" "hasPath s" "image_qimage s = Some src"
    and "heading_angle_deg p s (max 0 (min (drone_index s) (int (length (path_points s)) - 1))) = Inr a"
  shows "emit_crop p s =
     (case int_of_float (rect_width_px s) of
        Inl e \<Rightarrow> Inl e
      | Inr w \<Rightarrow>
          (case int_of_float (rect_height_px s) of
             Inl e \<Rightarrow> Inl e
           | Inr h \<Rightarrow>
               (if w < 2 \<or> h < 2 then Inr s
                else
                  (case QImage p w h of
                     Inl e \<Rightarrow> Inl e
                   | Inr None \<Rightarrow> Inr (s\<lparr>emitted := emitted s @ [NullFrame]\<rparr>)
                   | Inr (Some blank) \<Rightarrow>
                       Inr (s\<lparr>emitted := emitted s @
                         [FromImage (crop_loops src
                            (path_points s ! nat (max 0 (min (drone_index s) (int (length (path_points s)) - 1))))
                            (p_cos p (radians a)) (p_sin p (radians a)) w h (fill black blank))]\<rparr>)))))"
proof -
  from assms have len: "1 < length (path_points s)" by (simp add: hasPath_def)
  note c = clamped_lookup[OF len, of "drone_index s"]
  show ?thesis using assms c
    by (simp add: emit_crop_def Let_def split: sum.splits option.splits)
qed

lemma heading_at_clamped:
  assumes "hasPath s"
  shows "\<exists>a. heading_angle_deg p s (max 0 (min (drone_index s) (int (length (path_points s)) - 1))) = Inr a"
proof -
  from assms have len: "1 < length (path_points s)" by (simp add: hasPath_def)
  from clamped_bounds[OF len, of "drone_index s"]
    heading_defined[of "max 0 (min (drone_index s) (int (length (path_points s)) - 1))" s p]
  show ?thesis by blast
qed

lemma QImage_cases:
  "QImage p w h = Inl OverflowError \<or> QImage p w h = Inr None \<or>
   QImage p w h = Inr (Some \<lparr>img_width = w, img_height = h,
                              img_data = replicate (nat h) (replicate (nat w) 0)\<rparr>)"
  by (simp add: QImage_def)

lemma QImage_error: "QImage p w h = Inl e \<Longrightarrow> e = OverflowError"
  by (simp add: QImage_def split: if_splits)

lemma QImage_ok:
  "2 \<le> w \<Longrightarrow> w \<le> 2147483647 \<Longrightarrow> 2 \<le> h \<Longrightarrow> h \<le> 2147483647 \<Longrightarrow> p_alloc p w h \<Longrightarrow>
   QImage p w h = Inr (Some \<lparr>img_width = w, img_height = h,
                              img_data = replicate (nat h) (replicate (nat w) 0)\<rparr>)"
  by (simp add: QImage_def)

lemma QImage_null:
  "2 \<le> w \<Longrightarrow> w \<le> 2147483647 \<Longrightarrow> 2 \<le> h \<Longrightarrow> h \<le> 2147483647 \<Longrightarrow> \<not> p_alloc p w h \<Longrightarrow>
   QImage p w h = Inr None"
  by (simp add: QImage_def)

lemma QImage_overflow:
  "2147483647 < w \<or> 2147483647 < h \<Longrightarrow> QImage p w h = Inl OverflowError"
  by (auto simp: QImage_def)

lemma int_of_float_cases:
  "(\<exists>r. x = Fin r \<and> int_of_float x = Inr (py_int r)) \<or> int_of_float x = Inl OverflowError \<or>
   int_of_float x = Inl ValueError"
  by (cases x) simp_all

lemma emit_crop_cases:
  "emit_crop p s = Inr s \<or> (\<exists>f. emit_crop p s = Inr (s\<lparr>emitted := emitted s @ [f]\<rparr>)) \<or>
   emit_crop p s = Inl OverflowError \<or> emit_crop p s = Inl ValueError"
proof (cases "hasImage s \<and> hasPath s \<and> image_qimage s \<noteq> None")
  case False
  then show ?thesis by (simp add: emit_crop_guard)
next
  case True
  then obtain src where src: "image_qimage s = Some src" by auto
  from heading_at_clamped[of s p] True obtain a where
    a: "heading_angle_deg p s (max 0 (min (drone_index s) (int (length (path_points s)) - 1))) = Inr a"
    by blast
  from True src have h: "hasImage s" "hasPath s" by simp_all
  show ?thesis
    unfolding emit_crop_dims[OF h src a]
    using int_of_float_cases[of "rect_width_px s"] int_of_float_cases[of "rect_height_px s"]
    by (auto split: sum.splits option.splits dest: QImage_error)
qed

lemma emit_crop_not_IndexError: "emit_crop p s \<noteq> Inl IndexError"
  using emit_crop_cases[of p s] by auto

lemma emit_crop_skip:
  assumes "rect_width_px s = Fin rw" "rect_height_px s = Fin rh"
    and "py_int rw < 2 \<or> py_int rh < 2"
  shows "emit_crop p s = Inr s"
proof (cases "hasImage s \<and> hasPath s \<and> image_qimage s \<noteq> None")
  case False
  then show ?thesis by (simp add: emit_crop_guard)
next
  case True
  then obtain src where src: "image_qimage s = Some src" by auto
  from heading_at_clamped[of s p] True obtain a where
    a: "heading_angle_deg p s (max 0 (min (drone_index s) (int (length (path_points s)) - 1))) = Inr a"
    by blast
  from True src have h: "hasImage s" "hasPath s" by simp_all
  show ?thesis unfolding emit_crop_dims[OF h src a] using assms by auto
qed

lemma emit_crop_frame:
  assumes "hasImage s" "hasPath s" "image_qimage s = Some src"
    and "rect_width_px s = Fin rw" "rect_height_px s = Fin rh"
    and "2 \<le> py_int rw" "py_int rw \<le> 2147483647" "2 \<le> py_int rh" "py_int rh \<le> 2147483647"
    and "p_alloc p (py_int rw) (py_int rh)"
    and "heading_angle_deg p s (max 0 (min (drone_index s) (int (length (path_points s)) - 1))) = Inr a"
  shows "emit_crop p s = Inr (s\<lparr>emitted := emitted s @
           [FromImage (crop_loops src
              (path_points s ! nat (max 0 (min (drone_index s) (int (length (path_points s)) - 1))))
              (p_cos p (radians a)) (p_sin p (radians a)) (py_int rw) (py_int rh)
              (fill black \<lparr>img_width = py_int rw, img_height = py_int rh,
                 img_data = replicate (nat (py_int rh)) (replicate (nat (py_int rw)) 0)\<rparr>))]\<rparr>)"
  unfolding emit_crop_dims[OF assms(1,2,3,11)]
  using assms(4-10) by (simp add: QImage_ok)

lemma emit_crop_null:
  assumes "hasImage s" "hasPath s" "image_qimage s = Some src"
    and "rect_width_px s = Fin rw" "rect_height_px s = Fin rh"
    and "2 \<le> py_int rw" "py_int rw \<le> 2147483647" "2 \<le> py_int rh" "py_int rh \<le> 2147483647"
    and "\<not> p_alloc p (py_int rw) (py_int rh)"
  shows "emit_crop p s = Inr (s\<lparr>emitted := emitted s @ [NullFrame]\<rparr>)"
proof -
  from heading_at_clamped[of s p] assms(2) obtain a where
    a: "heading_angle_deg p s (max 0 (min (drone_index s) (int (length (path_points s)) - 1))) = Inr a"
    by blast
  show ?thesis unfolding emit_crop_dims[OF assms(1,2,3) a]
    using assms(4-10) by (simp add: QImage_null)
qed

lemma emit_crop_emits:
  assumes "hasImage s" "hasPath s" "image_qimage s = Some src"
    and "rect_width_px s = Fin rw" "rect_height_px s = Fin rh"
    and "2 \<le> py_int rw" "py_int rw \<le> 2147483647" "2 \<le> py_int rh" "py_int rh \<le> 2147483647"
  shows "\<exists>frame. emit_crop p s = Inr (s\<lparr>emitted := emitted s @ [frame]\<rparr>)"
proof (cases "p_alloc p (py_int rw) (py_int rh)")
  case True
  from heading_at_clamped[of s p] assms(2) obtain a where
    a: "heading_angle_deg p s (max 0 (min (drone_index s) (int (length (path_points s)) - 1))) = Inr a"
    by blast
  from emit_crop_frame[OF assms True a] show ?thesis by blast
next
  case False
  from emit_crop_null[OF assms False] show ?thesis by blast
qed

lemma emit_crop_raises:
  assumes "hasImage s" "hasPath s" "image_qimage s = Some src"
    and "rect_width_px s = PInf \<or> rect_height_px s = PInf \<or>
         (\<exists>rw rh. rect_width_px s = Fin rw \<and> rect_height_px s = Fin rh \<and>
                  2 \<le> py_int rw \<and> 2 \<le> py_int rh \<and>
                  (2147483647 < py_int rw \<or> 2147483647 < py_int rh))"
    and "rect_width_px s \<noteq> NaN" "rect_height_px s \<noteq> NaN"
  shows "emit_crop p s = Inl OverflowError"
proof -
  from heading_at_clamped[of s p] assms(2) obtain a where
    a: "heading_angle_deg p s (max 0 (min (drone_index s) (int (length (path_points s)) - 1))) = Inr a"
    by blast
  show ?thesis unfolding emit_crop_dims[OF assms(1,2,3) a]
    using assms(4,5,6)
    by (cases "rect_width_px s"; cases "rect_height_px s") (auto simp: QImage_overflow)
qed

lemma emit_crop_fields:
  assumes "emit_crop p s = Inr s'"
  shows "image s' = image s" "image_qimage s' = image_qimage s" "path_points s' = path_points s"
    "drawing s' = drawing s" "drone_index s' = drone_index s" "playing s' = playing s"
    "rect_width_px s' = rect_width_px s" "rect_height_px s' = rect_height_px s"
    "timer s' = timer s"
  using emit_crop_cases[of p s] assms by auto

section \<open>The invariant holds in every reachable state\<close>

lemma startAnimation_noop: "\<not> (hasImage s \<and> hasPath s) \<Longrightarrow> startAnimation p i s = Inr s"
  by (auto simp: startAnimation_def)

lemma startAnimation_cases:
  assumes "hasImage s" "hasPath s"
  shows "(\<exists>e. emit_crop p (s\<lparr>drone_index := 0, playing := True\<rparr>) = Inl e \<and>
              startAnimation p i s = Inl (e, s\<lparr>drone_index := 0, playing := True\<rparr>)) \<or>
         (\<exists>t. emit_crop p (s\<lparr>drone_index := 0, playing := True\<rparr>) = Inr t \<and>
              2147483647 < max 1 i \<and> startAnimation p i s = Inl (OverflowError, t)) \<or>
         (\<exists>t. emit_crop p (s\<lparr>drone_index := 0, playing := True\<rparr>) = Inr t \<and>
              max 1 i \<le> 2147483647 \<and> startAnimation p i s = Inr (t\<lparr>timer := Some (max 1 i)\<rparr>))"
  using assms
  by (cases "emit_crop p (s\<lparr>drone_index := 0, playing := True\<rparr>)")
     (auto simp: startAnimation_def)

lemma on_timer_cases:
  "(\<not> (hasPath s \<and> drone_index s < int (length (path_points s)) - 1) \<and>
      on_timer p s = Inr (stopAnimation s)) \<or>
   (hasPath s \<and> drone_index s < int (length (path_points s)) - 1 \<and>
      (\<exists>e. emit_crop p (s\<lparr>drone_index := drone_index s + 1\<rparr>) = Inl e \<and>
           on_timer p s = Inl (e, s\<lparr>drone_index := drone_index s + 1\<rparr>))) \<or>
   (hasPath s \<and> drone_index s < int (length (path_points s)) - 1 \<and>
      (\<exists>t. emit_crop p (s\<lparr>drone_index := drone_index s + 1\<rparr>) = Inr t \<and> on_timer p s = Inr t))"
  by (cases "emit_crop p (s\<lparr>drone_index := drone_index s + 1\<rparr>)") (auto simp: on_timer_def)

lemma emit_crop_inv: "emit_crop p s = Inr s' \<Longrightarrow> canvas_inv s' = canvas_inv s"
  by (simp add: canvas_inv_def emit_crop_fields split: option.splits qpixmap.splits)

lemma init_inv: "canvas_inv init"
  by (simp add: canvas_inv_def init_def)

lemma setImage_inv: "canvas_inv s \<Longrightarrow> canvas_inv (setImage pm s)"
  by (cases pm) (simp_all add: canvas_inv_def setImage_def)

lemma dim_ok_py_max: "dim_ok (py_max (Fin 4) x)"
  by (cases x) (simp_all add: py_max_def)

lemma setRectangleSizePixels_inv: "canvas_inv s \<Longrightarrow> canvas_inv (setRectangleSizePixels w h s)"
  by (simp add: canvas_inv_def setRectangleSizePixels_def dim_ok_py_max
        split: option.splits qpixmap.splits)

lemma stopAnimation_inv: "canvas_inv s \<Longrightarrow> canvas_inv (stopAnimation s)"
  by (simp add: canvas_inv_def stopAnimation_def split: option.splits qpixmap.splits)

lemma mousePressEvent_inv: "canvas_inv s \<Longrightarrow> canvas_inv (mousePressEvent b pos s)"
  by (auto simp: canvas_inv_def mousePressEvent_def point_in_image_def split: option.splits qpixmap.splits)

lemma mouseMoveEvent_inv: "canvas_inv s \<Longrightarrow> canvas_inv (mouseMoveEvent pos s)"
  by (auto simp: canvas_inv_def mouseMoveEvent_def point_in_image_def split: option.splits qpixmap.splits)

lemma mouseReleaseEvent_inv: "canvas_inv s \<Longrightarrow> canvas_inv (mouseReleaseEvent b s)"
  by (simp add: canvas_inv_def mouseReleaseEvent_def split: option.splits qpixmap.splits)

lemma startAnimation_inv:
  assumes "canvas_inv s" and "startAnimation p i s = Inr s' \<or> startAnimation p i s = Inl (err, s')"
  shows "canvas_inv s'"
proof (cases "hasImage s \<and> hasPath s")
  case False
  with assms show ?thesis by (simp add: startAnimation_noop)
next
  case True
  have a: "canvas_inv (s\<lparr>drone_index := 0, playing := True\<rparr>)"
    using assms(1) True by (auto simp add: canvas_inv_def hasPath_def split: option.splits qpixmap.splits)
  have b: "canvas_inv t" if "emit_crop p (s\<lparr>drone_index := 0, playing := True\<rparr>) = Inr t" for t
    using emit_crop_inv[OF that] a by simp
  have c: "canvas_inv (t\<lparr>timer := Some j\<rparr>)" if "canvas_inv t" for t j
    using that by (simp add: canvas_inv_def split: option.splits qpixmap.splits)
  from startAnimation_cases[of s p i] True assms(2) a b c show ?thesis by auto
qed

lemma on_timer_inv:
  assumes "canvas_inv s" and "on_timer p s = Inr s' \<or> on_timer p s = Inl (err, s')"
  shows "canvas_inv s'"
proof -
  have a: "canvas_inv (s\<lparr>drone_index := drone_index s + 1\<rparr>)"
    if "hasPath s \<and> drone_index s < int (length (path_points s)) - 1"
    using assms(1) that by (auto simp add: canvas_inv_def split: option.splits qpixmap.splits)
  have b: "canvas_inv t"
    if "hasPath s \<and> drone_index s < int (length (path_points s)) - 1"
      "emit_crop p (s\<lparr>drone_index := drone_index s + 1\<rparr>) = Inr t" for t
    using emit_crop_inv[OF that(2)] a[OF that(1)] by simp
  from on_timer_cases[of s p] assms(2) a b stopAnimation_inv[OF assms(1)] show ?thesis by auto
qed

lemma step_inv:
  "canvas_inv s \<Longrightarrow> step p e s = Inr s' \<or> step p e s = Inl (err, s') \<Longrightarrow> canvas_inv s'"
  by (cases e)
    (auto simp: setImage_inv setRectangleSizePixels_inv stopAnimation_inv mousePressEvent_inv
       mouseMoveEvent_inv mouseReleaseEvent_inv intro: startAnimation_inv on_timer_inv)

lemma reachable_inv: "reachable p s \<Longrightarrow> canvas_inv s"
proof (induction rule: reachable.induct)
  case reachable_init
  show ?case by (rule init_inv)
next
  case (reachable_step s e s')
  then show ?case using step_inv[of s p e s'] by blast
next
  case (reachable_raise s e err s')
  then show ?case using step_inv[of s p e s' err] by blast
qed

lemma reachable_run: "reachable p s \<Longrightarrow> run p es s = Inr s' \<Longrightarrow> reachable p s'"
proof (induction es arbitrary: s)
  case Nil
  then show ?case by simp
next
  case (Cons e es)
  then show ?case by (auto split: sum.splits intro: reachable_step)
qed



text \<open>
  The two slots of the main window that change the canvas are compositions of the
  operations above, so they stay inside the reachable states.
\<close>

lemma load_image_reachable: "reachable p s \<Longrightarrow> reachable p (load_image chosen s)"
proof (cases chosen)
  case None
  assume "reachable p s"
  with None show ?thesis by (simp add: load_image_def)
next
  case (Some pm)
  assume r: "reachable p s"
  have "step p (SetImage pm) s = Inr (setImage pm s)" by simp
  from reachable_step[OF r this] r Some show ?thesis by (simp add: load_image_def)
qed

lemma start_play_reachable:
  assumes "reachable p s"
    and "start_play p a rw rh z f s = Inr (warn, s') \<or> start_play p a rw rh z f s = Inl (err, s')"
  shows "reachable p s'"
proof (cases "hasImage s \<and> hasPath s \<and> (\<exists>a' rw' rh' z' f'. a = Some a' \<and> rw = Some rw' \<and> rh = Some rh' \<and> z = Some z' \<and> f = Some f' \<and> \<not> pf_le f' (Fin 0))")
  case False
  with assms(2) have "s' = s"
    by (auto simp: start_play_def split: option.splits if_splits)
  with assms(1) show ?thesis by simp
next
  case True
  then obtain a' rw' rh' z' f' where v: "a = Some a'" "rw = Some rw'" "rh = Some rh'" "z = Some z'"
    "f = Some f'" "\<not> pf_le f' (Fin 0)" by blast
  define s1 where "s1 = setRectangleSizePixels
     (pf_mul rw' (pf_mul (if pf_le a' (Fin 0) then Fin 1 else a') (if pf_le z' (Fin 0) then Fin 1 else z')))
     (pf_mul rh' (pf_mul (if pf_le a' (Fin 0) then Fin 1 else a') (if pf_le z' (Fin 0) then Fin 1 else z'))) s"
  have "step p (SetRectangleSizePixels
     (pf_mul rw' (pf_mul (if pf_le a' (Fin 0) then Fin 1 else a') (if pf_le z' (Fin 0) then Fin 1 else z')))
     (pf_mul rh' (pf_mul (if pf_le a' (Fin 0) then Fin 1 else a') (if pf_le z' (Fin 0) then Fin 1 else z')))) s = Inr s1"
    by (simp add: s1_def)
  from reachable_step[OF assms(1) this] have r: "reachable p s1" .
  have sp: "start_play p a rw rh z f s =
      (case interval_ms f' of
         Inl e \<Rightarrow> Inl (e, s1)
       | Inr i \<Rightarrow> (case startAnimation p i s1 of Inl es \<Rightarrow> Inl es | Inr s' \<Rightarrow> Inr (None, s')))"
    unfolding s1_def using True v by (simp add: start_play_def Let_def)
  show ?thesis
  proof (cases "interval_ms f'")
    case (Inl e)
    with sp assms(2) have "s' = s1" by simp
    with r show ?thesis by simp
  next
    case (Inr i)
    with sp assms(2) have "startAnimation p i s1 = Inr s' \<or> startAnimation p i s1 = Inl (err, s')"
      by (auto split: sum.splits)
    then show ?thesis
      using reachable_step[OF r, of "StartAnimation i" s'] reachable_raise[OF r, of "StartAnimation i" err s']
      by auto
  qed
qed

lemma startAnimation_sets:
  "(startAnimation p i s = Inr s' \<longrightarrow>
      s' = s \<or> (playing s' \<and> drone_index s' = 0 \<and> 2 \<le> length (path_points s'))) \<and>
   (startAnimation p i s = Inl (e, s') \<longrightarrow>
      playing s' \<and> drone_index s' = 0 \<and> 2 \<le> length (path_points s'))"
proof (cases "hasImage s \<and> hasPath s")
  case False
  then show ?thesis by (simp add: startAnimation_noop)
next
  case True
  have f: "playing t \<and> drone_index t = 0 \<and> 2 \<le> length (path_points t)"
    if "emit_crop p (s\<lparr>drone_index := 0, playing := True\<rparr>) = Inr t" for t
    using emit_crop_fields[OF that] True by (simp add: hasPath_def)
  from startAnimation_cases[of s p i] True f show ?thesis by (auto simp: hasPath_def)
qed

lemma on_timer_index:
  "(on_timer p s = Inr s' \<longrightarrow>
      path_points s' = path_points s \<and>
      (drone_index s' = drone_index s \<or>
       (drone_index s' = drone_index s + 1 \<and> drone_index s' \<le> int (length (path_points s')) - 1))) \<and>
   (on_timer p s = Inl (e, s') \<longrightarrow>
      path_points s' = path_points s \<and> drone_index s' = drone_index s + 1 \<and>
      drone_index s' \<le> int (length (path_points s')) - 1)"
proof -
  have f: "path_points t = path_points s \<and> drone_index t = drone_index s + 1"
    if "emit_crop p (s\<lparr>drone_index := drone_index s + 1\<rparr>) = Inr t" for t
    using emit_crop_fields[OF that] by simp
  from on_timer_cases[of s p] f show ?thesis by (auto simp: stopAnimation_def)
qed

lemma mousePressEvent_playing: "mousePressEvent b pos s = s \<or> \<not> playing (mousePressEvent b pos s)"
  by (simp add: mousePressEvent_def)

lemma footprint_fits_cases:
  "footprint_fits s \<Longrightarrow> \<exists>rw rh. rect_width_px s = Fin rw \<and> rect_height_px s = Fin rh \<and>
     py_int rw \<le> 2147483647 \<and> py_int rh \<le> 2147483647"
  by (cases "rect_width_px s"; cases "rect_height_px s") (simp_all add: footprint_fits_def)

lemma emit_crop_fits:
  assumes "footprint_fits s"
  shows "emit_crop p s = Inr s \<or> (\<exists>f. emit_crop p s = Inr (s\<lparr>emitted := emitted s @ [f]\<rparr>))"
proof (cases "hasImage s \<and> hasPath s \<and> image_qimage s \<noteq> None")
  case False
  then show ?thesis by (simp add: emit_crop_guard)
next
  case True
  then obtain src where src: "image_qimage s = Some src" by auto
  from footprint_fits_cases[OF assms] obtain rw rh where
    d: "rect_width_px s = Fin rw" "rect_height_px s = Fin rh"
       "py_int rw \<le> 2147483647" "py_int rh \<le> 2147483647" by blast
  show ?thesis
  proof (cases "py_int rw < 2 \<or> py_int rh < 2")
    case T: True
    from emit_crop_skip[OF d(1,2) T] show ?thesis by simp
  next
    case F: False
    then have "2 \<le> py_int rw" "2 \<le> py_int rh" by simp_all
    from emit_crop_emits[OF _ _ src d(1,2) this(1) d(3) this(2) d(4)] True show ?thesis by simp
  qed
qed


section \<open>The small session, run\<close>

lemma demo_heading: "heading_angle_deg demo_platform (demo_drawn\<lparr>drone_index := 0, playing := True\<rparr>) 0 = Inr 0"
  by (simp add: heading_angle_deg_def demo_drawn_def py_index_def px_def py_def dsub_def dmul_def
        degrees_def demo_platform_def arctan2_def)

lemma demo_trig: "p_cos demo_platform (radians 0) = 1" "p_sin demo_platform (radians 0) = 0"
  by (simp_all add: demo_platform_def radians_def dmul_def)

lemma demo_crop:
  "crop_loops demo_raster (0, 0) 1 0 4 4
     (fill black \<lparr>img_width = 4, img_height = 4, img_data = replicate 4 (replicate 4 0)\<rparr>) =
   demo_frame"
  by (simp add: crop_loops_def crop_pixel_def fill_def black_def demo_raster_def demo_frame_def
       setPixel_def pixel_def px_def py_def Let_def py_round_def upt_rec numeral_eq_Suc
       dadd_def dsub_def dmul_def ddiv_def)

lemma demo_drawn_run:
  "run demo_platform [SetImage (Pixmap demo_raster), SetRectangleSizePixels (Fin 4) (Fin 4),
      MousePress LeftButton (0, 0), MouseMove (1, 0), MouseRelease LeftButton] init = Inr demo_drawn"
  by (simp add: init_def setImage_def setRectangleSizePixels_def mousePressEvent_def mouseMoveEvent_def
       mouseReleaseEvent_def hasImage_def point_in_image_def demo_raster_def demo_drawn_def QPointF_def
       py_max_def)

lemma demo_emit:
  "emit_crop demo_platform (demo_drawn\<lparr>drone_index := 0, playing := True\<rparr>) =
     Inr (demo_drawn\<lparr>drone_index := 0, playing := True, emitted := [FromImage demo_frame]\<rparr>)"
proof -
  let ?s = "demo_drawn\<lparr>drone_index := 0, playing := True\<rparr>"
  have h: "heading_angle_deg demo_platform ?s
             (max 0 (min (drone_index ?s) (int (length (path_points ?s)) - 1))) = Inr 0"
    using demo_heading by (simp add: demo_drawn_def)
  have a: "hasImage ?s" "hasPath ?s" "image_qimage ?s = Some demo_raster"
    "rect_width_px ?s = Fin 4" "rect_height_px ?s = Fin 4"
    by (simp_all add: hasImage_def hasPath_def demo_drawn_def)
  have b: "2 \<le> py_int 4" "py_int 4 \<le> 2147483647" "p_alloc demo_platform (py_int 4) (py_int 4)"
    by (simp_all add: py_int_def demo_platform_def)
  have c: "py_int 4 = 4" by (simp add: py_int_def)
  from emit_crop_frame[OF a b(1,2,1,2,3) h] show ?thesis
    unfolding c demo_trig by (simp add: demo_drawn_def demo_crop)
qed

lemma demo_playing_run: "run demo_platform demo_events init = Inr demo_playing"
proof -
  have "startAnimation demo_platform 500 demo_drawn = Inr demo_playing"
    using demo_emit
    by (simp add: startAnimation_def hasImage_def hasPath_def demo_drawn_def demo_playing_def)
  then show ?thesis using demo_drawn_run by (simp add: demo_events_def)
qed

lemma demo_playing_reachable: "reachable demo_platform demo_playing"
  using reachable_run[OF reachable_init demo_playing_run] .


section \<open>The sampled frame (C1)\<close>

text \<open>
  Claim C1, as stated, fails for a footprint wider than a C integer: with a width of
  2147483648 pixels, set through \<^verbatim>\<open>setRectangleSizePixels\<close>, \<^verbatim>\<open>_emit_crop\<close> raises
  \<^verbatim>\<open>OverflowError\<close> when it constructs the image and emits nothing.
\<close>

theorem emit_crop_overflows_counterexample:
  "hasImage (demo_drawn\<lparr>rect_width_px := Fin 2147483648\<rparr>) \<and>
   hasPath (demo_drawn\<lparr>rect_width_px := Fin 2147483648\<rparr>) \<and>
   int_of_float (rect_width_px (demo_drawn\<lparr>rect_width_px := Fin 2147483648\<rparr>)) = Inr 2147483648 \<and>
   int_of_float (rect_height_px (demo_drawn\<lparr>rect_width_px := Fin 2147483648\<rparr>)) = Inr 4 \<and>
   run demo_platform [SetRectangleSizePixels (Fin 2147483648) (Fin 4)] demo_drawn =
     Inr (demo_drawn\<lparr>rect_width_px := Fin 2147483648\<rparr>) \<and>
   emit_crop demo_platform (demo_drawn\<lparr>rect_width_px := Fin 2147483648\<rparr>) = Inl OverflowError"
proof -
  let ?s = "demo_drawn\<lparr>rect_width_px := Fin 2147483648\<rparr>"
  have a: "hasImage ?s" "hasPath ?s" "image_qimage ?s = Some demo_raster"
    by (simp_all add: hasImage_def hasPath_def demo_drawn_def)
  have b: "int_of_float (rect_width_px ?s) = Inr 2147483648"
    "int_of_float (rect_height_px ?s) = Inr 4"
    by (simp_all add: demo_drawn_def py_int_def)
  have c: "run demo_platform [SetRectangleSizePixels (Fin 2147483648) (Fin 4)] demo_drawn = Inr ?s"
    by (simp add: setRectangleSizePixels_def py_max_def demo_drawn_def)
  have d: "rect_width_px ?s = PInf \<or> rect_height_px ?s = PInf \<or>
         (\<exists>rw rh. rect_width_px ?s = Fin rw \<and> rect_height_px ?s = Fin rh \<and>
                  2 \<le> py_int rw \<and> 2 \<le> py_int rh \<and>
                  (2147483647 < py_int rw \<or> 2147483647 < py_int rh))"
    by (simp add: demo_drawn_def py_int_def)
  have e: "rect_width_px ?s \<noteq> NaN" "rect_height_px ?s \<noteq> NaN" by (simp_all add: demo_drawn_def)
  from emit_crop_raises[OF a d e] a b c show ?thesis by blast
qed

text \<open>
  Claim C1, amended. When the canvas has an image, a path and a footprint of integer size
  \<open>w\<close> by \<open>h\<close>, both between 2 and 2147483647, for which Qt obtains the buffer,
  \<^verbatim>\<open>_emit_crop\<close> emits exactly one frame, made from an image of width \<open>w\<close> and height
  \<open>h\<close>. Its pixel \<open>(x, y)\<close> is the source pixel at the rounded rotated coordinates,
  computed in double arithmetic with the platform's sine and cosine, when these are inside
  the raster, and opaque black otherwise; the centre is the path point at the clamped index
  and the angle is the heading there.
\<close>

theorem emit_crop_samples_rotated_rectangle:
  assumes "hasImage s" and "hasPath s" and "image_qimage s = Some src"
    and "rect_width_px s = Fin rw" and "rect_height_px s = Fin rh"
    and "w = py_int rw" and "h = py_int rh"
    and "2 \<le> w" and "w \<le> 2147483647" and "2 \<le> h" and "h \<le> 2147483647"
    and "p_alloc p w h"
    and "idx = max 0 (min (drone_index s) (int (length (path_points s)) - 1))"
  shows "\<exists>frame angle_deg.
           heading_angle_deg p s idx = Inr angle_deg \<and>
           emit_crop p s = Inr (s\<lparr>emitted := emitted s @ [FromImage frame]\<rparr>) \<and>
           img_width frame = w \<and> img_height frame = h \<and>
           length (img_data frame) = nat h \<and>
           (\<forall>y<nat h. length (img_data frame ! y) = nat w) \<and>
           (\<forall>x y. 0 \<le> x \<and> x < w \<and> 0 \<le> y \<and> y < h \<longrightarrow>
              pixel frame x y =
                spec_sample_pixel p src (path_points s ! nat idx) (radians angle_deg) w h x y)"
proof -
  from heading_at_clamped[OF assms(2), of p] assms(13)
  obtain a where a: "heading_angle_deg p s idx = Inr a" by blast
  define frame where "frame = crop_loops src (path_points s ! nat idx)
              (p_cos p (radians a)) (p_sin p (radians a)) w h
              (fill black \<lparr>img_width = w, img_height = h,
                 img_data = replicate (nat h) (replicate (nat w) 0)\<rparr>)"
  have e: "emit_crop p s = Inr (s\<lparr>emitted := emitted s @ [FromImage frame]\<rparr>)"
    using emit_crop_frame[OF assms(1,2,3,4,5), of p a] assms(6-13) a by (simp add: frame_def)
  note F = crop_loops_frame[OF frame_def]
  have px: "pixel frame x y = spec_sample_pixel p src (path_points s ! nat idx) (radians a) w h x y"
    if "0 \<le> x" "x < w" "0 \<le> y" "y < h" for x y
  proof -
    from that have "nat y < nat h" "nat x < nat w" by simp_all
    with F have "img_data frame ! nat y ! nat x =
       (case (let ix = py_round (dsub (dadd (px (path_points s ! nat idx))
                          (dmul (p_cos p (radians a)) (dsub (real (nat x)) (ddiv (real_of_int w) 2))))
                          (dmul (p_sin p (radians a)) (dsub (real (nat y)) (ddiv (real_of_int h) 2))));
                iy = py_round (dadd (dadd (py (path_points s ! nat idx))
                          (dmul (p_sin p (radians a)) (dsub (real (nat x)) (ddiv (real_of_int w) 2))))
                          (dmul (p_cos p (radians a)) (dsub (real (nat y)) (ddiv (real_of_int h) 2))))
            in if 0 \<le> ix \<and> ix < img_width src \<and> 0 \<le> iy \<and> iy < img_height src
               then Some (pixel src ix iy) else None) of None \<Rightarrow> black | Some c \<Rightarrow> c)"
      by blast
    with that show ?thesis
      by (simp add: pixel_def[of frame] spec_sample_pixel_def Let_def px_def py_def black_def)
  qed
  from a e F px show ?thesis by blast
qed

theorem emit_crop_samples_rotated_rectangle_witness:
  "hasImage (demo_drawn\<lparr>drone_index := 0, playing := True\<rparr>) \<and>
   hasPath (demo_drawn\<lparr>drone_index := 0, playing := True\<rparr>) \<and>
   (2::int) \<le> 4 \<and> (4::int) \<le> 2147483647 \<and> p_alloc demo_platform 4 4 \<and>
   emit_crop demo_platform (demo_drawn\<lparr>drone_index := 0, playing := True\<rparr>) =
     Inr (demo_drawn\<lparr>drone_index := 0, playing := True, emitted := [FromImage demo_frame]\<rparr>) \<and>
   pixel demo_frame 2 3 = spec_sample_pixel demo_platform demo_raster (0, 0) (radians 0) 4 4 2 3 \<and>
   pixel demo_frame 1 3 = spec_sample_pixel demo_platform demo_raster (0, 0) (radians 0) 4 4 1 3"
proof -
  let ?s = "demo_drawn\<lparr>drone_index := 0, playing := True\<rparr>"
  have hyp: "hasImage ?s" "hasPath ?s" "image_qimage ?s = Some demo_raster"
    "rect_width_px ?s = Fin 4" "rect_height_px ?s = Fin 4"
    "4 = py_int 4" "(2::int) \<le> 4" "(4::int) \<le> 2147483647" "p_alloc demo_platform 4 4"
    "0 = max 0 (min (drone_index ?s) (int (length (path_points ?s)) - 1))"
    by (simp_all add: hasImage_def hasPath_def demo_drawn_def py_int_def demo_platform_def)
  have c: "path_points ?s ! nat 0 = (0, 0)" by (simp add: demo_drawn_def)
  from emit_crop_samples_rotated_rectangle[OF hyp(1,2,3,4,5,6,6,7,8,7,8,9,10)] demo_heading
  obtain frame where e: "emit_crop demo_platform ?s = Inr (?s\<lparr>emitted := emitted ?s @ [FromImage frame]\<rparr>)"
    and p: "\<forall>x y. 0 \<le> x \<and> x < 4 \<and> 0 \<le> y \<and> y < 4 \<longrightarrow>
              pixel frame x y = spec_sample_pixel demo_platform demo_raster (path_points ?s ! nat 0) (radians 0) 4 4 x y"
    by auto
  from e demo_emit have f: "frame = demo_frame" by (simp add: demo_drawn_def)
  from p have "pixel frame 2 3 = spec_sample_pixel demo_platform demo_raster (path_points ?s ! nat 0) (radians 0) 4 4 2 3"
    "pixel frame 1 3 = spec_sample_pixel demo_platform demo_raster (path_points ?s ! nat 0) (radians 0) 4 4 1 3"
    by simp_all
  with hyp demo_emit show ?thesis unfolding f c by simp
qed

section \<open>Timer ticks (C2)\<close>




section \<open>The tick interval (C3)\<close>

text \<open>
  Claim C3, as stated, fails: \<^verbatim>\<open>start_play\<close> computes \<^verbatim>\<open>int(1000.0 / freq)\<close>, which drops
  the fraction. At 1.5 Hz the quotient is 666.67: the interval is 666, and the nearest
  integer is 667.
\<close>

theorem interval_ms_truncates_counterexample:
  "interval_ms (Fin (3 / 2)) = Inr 666 \<and> py_round (fl (1000 / (3 / 2))) = 667 \<and>
   round (1000 / (3 / 2) :: real) = 667"
proof -
  have a: "fl (1000 / (3 / 2)) < 2 ^ 1024" unfolding fl_two_thirds_of_thousand by simp
  from interval_ms_finite[of "3 / 2"] a have "interval_ms (Fin (3 / 2)) = Inr \<lfloor>fl (1000 / (3 / 2))\<rfloor>"
    by simp
  then have "interval_ms (Fin (3 / 2)) = Inr 666" unfolding fl_two_thirds_of_thousand by simp
  moreover have "py_round (fl (1000 / (3 / 2))) = 667"
    unfolding fl_two_thirds_of_thousand by (simp add: py_round_def Let_def)
  moreover have "round (1000 / (3 / 2) :: real) = 667" by (simp add: round_def)
  ultimately show ?thesis by blast
qed

text \<open>
  Claim C3, amended. For every finite frequency above zero whose quotient \<open>1000 / f\<close> in
  doubles is finite, the interval is that double quotient rounded down, and it is the
  interval that \<^verbatim>\<open>start_play\<close> hands to \<^verbatim>\<open>startAnimation\<close>. The witness is the field
  \<^verbatim>\<open>0.1\<close>: the double quotient is exactly 10000.
\<close>

theorem interval_ms_truncates:
  assumes "0 < f" and "fl (1000 / f) < 2 ^ 1024" and "hasImage s" and "hasPath s"
  shows "interval_ms (Fin f) = Inr \<lfloor>fl (1000 / f)\<rfloor> \<and>
         start_play p (Some a) (Some rw) (Some rh) (Some z) (Some (Fin f)) s =
           (case startAnimation p \<lfloor>fl (1000 / f)\<rfloor>
                   (setRectangleSizePixels
                      (pf_mul rw (pf_mul (if pf_le a (Fin 0) then Fin 1 else a)
                                         (if pf_le z (Fin 0) then Fin 1 else z)))
                      (pf_mul rh (pf_mul (if pf_le a (Fin 0) then Fin 1 else a)
                                         (if pf_le z (Fin 0) then Fin 1 else z))) s) of
              Inl es \<Rightarrow> Inl es
            | Inr s' \<Rightarrow> Inr (None, s'))"
proof -
  from interval_ms_finite[OF assms(1)] assms(2)
  have i: "interval_ms (Fin f) = Inr \<lfloor>fl (1000 / f)\<rfloor>" by simp
  have "\<not> pf_le (Fin f) (Fin 0)" using assms(1) by simp
  then show ?thesis using i assms(3,4) by (simp add: start_play_def Let_def)
qed

theorem interval_ms_truncates_witness:
  "(0::real) < 3602879701896397 / 2 ^ 55 \<and>
   fl (1000 / (3602879701896397 / 2 ^ 55)) < 2 ^ 1024 \<and>
   hasImage demo_drawn \<and> hasPath demo_drawn \<and>
   interval_ms (Fin (3602879701896397 / 2 ^ 55)) = Inr 10000 \<and>
   start_play demo_platform (Some (Fin 100)) (Some (Fin 20)) (Some (Fin 20)) (Some (Fin 1))
       (Some (Fin (3602879701896397 / 2 ^ 55))) demo_drawn =
     (case startAnimation demo_platform 10000
             (setRectangleSizePixels (Fin 2000) (Fin 2000) demo_drawn) of
        Inl es \<Rightarrow> Inl es
      | Inr s' \<Rightarrow> Inr (None, s'))"
proof -
  have a: "(0::real) < 3602879701896397 / 2 ^ 55"
    "fl (1000 / (3602879701896397 / 2 ^ 55)) < 2 ^ 1024"
    "hasImage demo_drawn" "hasPath demo_drawn"
    unfolding fl_thousand_by_tenth by (simp_all add: hasImage_def hasPath_def demo_drawn_def)
  from interval_ms_truncates[OF a, of demo_platform "Fin 100" "Fin 20" "Fin 20" "Fin 1"] a
  show ?thesis unfolding fl_thousand_by_tenth by (simp add: to_double_def)
qed

section \<open>Coordinates halfway between two pixels (C4)\<close>

text \<open>
  Claim C4, as stated, fails: \<^verbatim>\<open>round\<close> takes a halfway value to the even neighbour, so
  2.5 becomes 2. With a footprint five pixels wide centred at \<open>x = 3\<close> and heading 0, the
  leftmost destination pixel has \<open>gx = 0.5\<close> and is read from source column 0, not from
  column 1.
\<close>

theorem sample_rounds_half_to_even_counterexample:
  "py_round (5 / 2) = 2 \<and>
   dsub (dadd (px (3, 1)) (dmul 1 (dsub (real 0) (ddiv (real_of_int 5) 2))))
        (dmul 0 (dsub (real 1) (ddiv (real_of_int 2) 2))) = 1 / 2 \<and>
   pixel (crop_pixel demo_raster (3, 1) 1 0 5 2 1 0
            (fill black \<lparr>img_width = 5, img_height = 2,
                          img_data = replicate 2 (replicate 5 0)\<rparr>)) 0 1 =
     pixel demo_raster 0 1 \<and>
   pixel demo_raster 0 1 \<noteq> pixel demo_raster 1 1"
  by (simp add: py_round_def crop_pixel_def px_def py_def Let_def setPixel_def pixel_def fill_def
        demo_raster_def numeral_eq_Suc dadd_def dsub_def dmul_def ddiv_def)

text \<open>
  Claim C4, amended. A sampled coordinate whose fractional part is exactly one half is
  mapped to the even one of its two neighbouring integers, for \<open>gx\<close> and for \<open>gy\<close>.
\<close>

theorem sample_rounds_half_to_even:
  assumes "gx = dsub (dadd (px center) (dmul cos_t (dsub (real x) (ddiv (real_of_int w) 2))))
                     (dmul sin_t (dsub (real y) (ddiv (real_of_int h) 2)))"
    and "gy = dadd (dadd (py center) (dmul sin_t (dsub (real x) (ddiv (real_of_int w) 2))))
                   (dmul cos_t (dsub (real y) (ddiv (real_of_int h) 2)))"
  shows "(gx - real_of_int \<lfloor>gx\<rfloor> = 1 / 2 \<longrightarrow>
            crop_pixel src center cos_t sin_t w h y x r =
              (let ix = (if even \<lfloor>gx\<rfloor> then \<lfloor>gx\<rfloor> else \<lfloor>gx\<rfloor> + 1); iy = py_round gy
               in if 0 \<le> ix \<and> ix < img_width src \<and> 0 \<le> iy \<and> iy < img_height src
                  then setPixel x y (pixel src ix iy) r else r)) \<and>
         (gy - real_of_int \<lfloor>gy\<rfloor> = 1 / 2 \<longrightarrow>
            crop_pixel src center cos_t sin_t w h y x r =
              (let ix = py_round gx; iy = (if even \<lfloor>gy\<rfloor> then \<lfloor>gy\<rfloor> else \<lfloor>gy\<rfloor> + 1)
               in if 0 \<le> ix \<and> ix < img_width src \<and> 0 \<le> iy \<and> iy < img_height src
                  then setPixel x y (pixel src ix iy) r else r))"
proof -
  have c: "crop_pixel src center cos_t sin_t w h y x r =
      (if 0 \<le> py_round gx \<and> py_round gx < img_width src \<and> 0 \<le> py_round gy \<and> py_round gy < img_height src
       then setPixel x y (pixel src (py_round gx) (py_round gy)) r else r)"
    unfolding assms by (simp add: crop_pixel_def Let_def)
  show ?thesis
  proof (intro conjI impI)
    assume "gx - real_of_int \<lfloor>gx\<rfloor> = 1 / 2"
    from py_round_half[OF this] show "crop_pixel src center cos_t sin_t w h y x r =
              (let ix = (if even \<lfloor>gx\<rfloor> then \<lfloor>gx\<rfloor> else \<lfloor>gx\<rfloor> + 1); iy = py_round gy
               in if 0 \<le> ix \<and> ix < img_width src \<and> 0 \<le> iy \<and> iy < img_height src
                  then setPixel x y (pixel src ix iy) r else r)"
      unfolding c Let_def by simp
  next
    assume "gy - real_of_int \<lfloor>gy\<rfloor> = 1 / 2"
    from py_round_half[OF this] show "crop_pixel src center cos_t sin_t w h y x r =
              (let ix = py_round gx; iy = (if even \<lfloor>gy\<rfloor> then \<lfloor>gy\<rfloor> else \<lfloor>gy\<rfloor> + 1)
               in if 0 \<le> ix \<and> ix < img_width src \<and> 0 \<le> iy \<and> iy < img_height src
                  then setPixel x y (pixel src ix iy) r else r)"
      unfolding c Let_def by simp
  qed
qed

theorem sample_rounds_half_to_even_witness:
  "(1 / 2 :: real) = dsub (dadd (px (3, 1)) (dmul 1 (dsub (real 0) (ddiv (real_of_int 5) 2))))
                          (dmul 0 (dsub (real 1) (ddiv (real_of_int 2) 2))) \<and>
   (1 / 2 :: real) - real_of_int \<lfloor>1 / 2 :: real\<rfloor> = 1 / 2 \<and>
   crop_pixel demo_raster (3, 1) 1 0 5 2 1 0
       (fill black \<lparr>img_width = 5, img_height = 2, img_data = replicate 2 (replicate 5 0)\<rparr>) =
     setPixel 0 1 (pixel demo_raster 0 1)
       (fill black \<lparr>img_width = 5, img_height = 2, img_data = replicate 2 (replicate 5 0)\<rparr>)"
proof -
  have a: "(1 / 2 :: real) = dsub (dadd (px (3, 1)) (dmul 1 (dsub (real 0) (ddiv (real_of_int 5) 2))))
                          (dmul 0 (dsub (real 1) (ddiv (real_of_int 2) 2)))"
    "(1 :: real) = dadd (dadd (py (3, 1)) (dmul 0 (dsub (real 0) (ddiv (real_of_int 5) 2))))
                        (dmul 1 (dsub (real 1) (ddiv (real_of_int 2) 2)))"
    by (simp_all add: px_def py_def dadd_def dsub_def dmul_def ddiv_def)
  have b: "(1 / 2 :: real) - real_of_int \<lfloor>1 / 2 :: real\<rfloor> = 1 / 2" by simp
  have r: "py_round 1 = 1" using py_round_of_int[of 1] by simp
  from sample_rounds_half_to_even[OF a, of demo_raster
         "fill black \<lparr>img_width = 5, img_height = 2, img_data = replicate 2 (replicate 5 0)\<rparr>"] b
  have "crop_pixel demo_raster (3, 1) 1 0 5 2 1 0
       (fill black \<lparr>img_width = 5, img_height = 2, img_data = replicate 2 (replicate 5 0)\<rparr>) =
     setPixel 0 1 (pixel demo_raster 0 1)
       (fill black \<lparr>img_width = 5, img_height = 2, img_data = replicate 2 (replicate 5 0)\<rparr>)"
    by (simp add: r demo_raster_def)
  with a b show ?thesis by blast
qed

section \<open>Heading at the end of the path (C5)\<close>

text \<open>
  Claim C5. On a path of \<open>n \<ge> 2\<close> points whose last two points differ, the heading at
  index \<open>n - 1\<close> equals the heading at index \<open>n - 2\<close>; with coordinates that are
  doubles, both are the angle of the segment from point \<open>n - 2\<close> to point \<open>n - 1\<close>.
\<close>

theorem heading_at_end_looks_backward:
  assumes "2 \<le> length (path_points s)"
    and "path_points s ! (length (path_points s) - 1) \<noteq> path_points s ! (length (path_points s) - 2)"
  shows "heading_angle_deg p s (int (length (path_points s)) - 1) =
           heading_angle_deg p s (int (length (path_points s)) - 2) \<and>
         (is_double (px (path_points s ! (length (path_points s) - 1))) \<and>
          is_double (py (path_points s ! (length (path_points s) - 1))) \<and>
          is_double (px (path_points s ! (length (path_points s) - 2))) \<and>
          is_double (py (path_points s ! (length (path_points s) - 2))) \<longrightarrow>
          heading_angle_deg p s (int (length (path_points s)) - 1) =
            Inr (degrees (p_atan2 p
              (dsub (py (path_points s ! (length (path_points s) - 1)))
                    (py (path_points s ! (length (path_points s) - 2))))
              (dsub (px (path_points s ! (length (path_points s) - 1)))
                    (px (path_points s ! (length (path_points s) - 2)))))))"
proof -
  let ?ps = "path_points s"
  let ?n = "length ?ps"
  let ?dx = "dsub (px (?ps ! (?n - 1))) (px (?ps ! (?n - 2)))"
  let ?dy = "dsub (py (?ps ! (?n - 1))) (py (?ps ! (?n - 2)))"
  have n1: "nat (int ?n - 1) = ?n - 1" and n2: "nat (int ?n - 2) = ?n - 2" by simp_all
  have i1: "py_index ?ps (int ?n - 1) = Inr (?ps ! (?n - 1))"
    using assms(1) by (auto simp add: py_index_def n1)
  have i2: "py_index ?ps (int ?n - 2) = Inr (?ps ! (?n - 2))"
    using assms(1) by (auto simp add: py_index_def n2)
  have last: "heading_angle_deg p s (int ?n - 1) =
      (if ?dx = 0 \<and> ?dy = 0 then Inr 0 else Inr (degrees (p_atan2 p ?dy ?dx)))"
    using assms(1) i1 i2 by (auto simp add: heading_angle_deg_def Let_def)
  have e: "int ?n - 2 + 1 = int ?n - 1" by simp
  have prev: "heading_angle_deg p s (int ?n - 2) =
      (if ?dx = 0 \<and> ?dy = 0 then Inr 0 else Inr (degrees (p_atan2 p ?dy ?dx)))"
    using assms(1) i1 i2 by (auto simp add: heading_angle_deg_def Let_def e)
  have nz: "\<not> (?dx = 0 \<and> ?dy = 0)"
    if "is_double (px (?ps ! (?n - 1))) \<and> is_double (py (?ps ! (?n - 1))) \<and>
        is_double (px (?ps ! (?n - 2))) \<and> is_double (py (?ps ! (?n - 2)))"
  proof -
    from assms(2) have "px (?ps ! (?n - 1)) \<noteq> px (?ps ! (?n - 2)) \<or> py (?ps ! (?n - 1)) \<noteq> py (?ps ! (?n - 2))"
      by (auto simp: px_def py_def prod_eq_iff)
    with that dsub_nonzero show ?thesis by blast
  qed
  show ?thesis
  proof (intro conjI impI)
    show "heading_angle_deg p s (int ?n - 1) = heading_angle_deg p s (int ?n - 2)"
      by (simp only: last prev)
  next
    assume "is_double (px (?ps ! (?n - 1))) \<and> is_double (py (?ps ! (?n - 1))) \<and>
        is_double (px (?ps ! (?n - 2))) \<and> is_double (py (?ps ! (?n - 2)))"
    from nz[OF this] have "(if ?dx = 0 \<and> ?dy = 0 then Inr 0 else Inr (degrees (p_atan2 p ?dy ?dx))) =
        (Inr (degrees (p_atan2 p ?dy ?dx)) :: error + real)"
      by (simp only: if_False)
    then show "heading_angle_deg p s (int ?n - 1) = Inr (degrees (p_atan2 p ?dy ?dx))"
      by (simp only: last)
  qed
qed

theorem heading_at_end_looks_backward_witness:
  "2 \<le> length (path_points demo_drawn) \<and>
   path_points demo_drawn ! (length (path_points demo_drawn) - 1) \<noteq>
     path_points demo_drawn ! (length (path_points demo_drawn) - 2) \<and>
   is_double 0 \<and> is_double 1 \<and>
   heading_angle_deg demo_platform demo_drawn 1 = heading_angle_deg demo_platform demo_drawn 0 \<and>
   heading_angle_deg demo_platform demo_drawn 1 = Inr 0"
proof -
  have a: "2 \<le> length (path_points demo_drawn)"
    "path_points demo_drawn ! (length (path_points demo_drawn) - 1) \<noteq>
     path_points demo_drawn ! (length (path_points demo_drawn) - 2)"
    by (simp_all add: demo_drawn_def)
  have d: "is_double 0" "is_double 1" by (simp_all add: is_double_def)
  have l: "int (length (path_points demo_drawn)) - 1 = 1" "int (length (path_points demo_drawn)) - 2 = 0"
    by (simp_all add: demo_drawn_def)
  have c: "px (path_points demo_drawn ! (length (path_points demo_drawn) - 1)) = 1"
    "py (path_points demo_drawn ! (length (path_points demo_drawn) - 1)) = 0"
    "px (path_points demo_drawn ! (length (path_points demo_drawn) - 2)) = 0"
    "py (path_points demo_drawn ! (length (path_points demo_drawn) - 2)) = 0"
    by (simp_all add: demo_drawn_def px_def py_def)
  have v: "degrees (p_atan2 demo_platform (dsub 0 0) (dsub 1 0)) = 0"
    by (simp add: demo_platform_def arctan2_def degrees_def dsub_def dmul_def)
  from heading_at_end_looks_backward[OF a, of demo_platform] d
  have "heading_angle_deg demo_platform demo_drawn 1 = heading_angle_deg demo_platform demo_drawn 0"
    "heading_angle_deg demo_platform demo_drawn 1 = Inr 0"
    unfolding l c v by blast+
  with a d show ?thesis by blast
qed

section \<open>The index while playing (C6)\<close>

text \<open>
  Claim C6. In every reachable state, when the playing flag is set the index is at least
  0 and below the length of the path. Starting either changes nothing or sets the flag
  with index 0 on a path of at least two points, also when it raises; a tick keeps the
  path and either keeps the index or adds one without passing the last index, also when
  it raises; a mouse press that changes the canvas clears the flag, and so does loading an
  image, which empties the path.
\<close>

theorem playing_index_within_path:
  assumes "reachable p s"
  shows "(playing s \<longrightarrow> 0 \<le> drone_index s \<and> drone_index s < int (length (path_points s))) \<and>
         (\<forall>i s'. startAnimation p i s = Inr s' \<longrightarrow>
            s' = s \<or> (playing s' \<and> drone_index s' = 0 \<and> 2 \<le> length (path_points s'))) \<and>
         (\<forall>i e s'. startAnimation p i s = Inl (e, s') \<longrightarrow>
            playing s' \<and> drone_index s' = 0 \<and> 2 \<le> length (path_points s')) \<and>
         (\<forall>s'. on_timer p s = Inr s' \<longrightarrow>
            path_points s' = path_points s \<and>
            (drone_index s' = drone_index s \<or>
             (drone_index s' = drone_index s + 1 \<and>
              drone_index s' \<le> int (length (path_points s')) - 1))) \<and>
         (\<forall>e s'. on_timer p s = Inl (e, s') \<longrightarrow>
            path_points s' = path_points s \<and> drone_index s' = drone_index s + 1 \<and>
            drone_index s' \<le> int (length (path_points s')) - 1) \<and>
         (\<forall>b pos. mousePressEvent b pos s = s \<or> \<not> playing (mousePressEvent b pos s)) \<and>
         (\<forall>pm. path_points (setImage pm s) = [] \<and> \<not> playing (setImage pm s))"
proof -
  from reachable_inv[OF assms]
  have "playing s \<longrightarrow> 0 \<le> drone_index s \<and> drone_index s < int (length (path_points s))"
    by (auto simp: canvas_inv_def)
  moreover have "\<forall>pm. path_points (setImage pm s) = [] \<and> \<not> playing (setImage pm s)"
    by (simp add: setImage_def)
  ultimately show ?thesis
    using startAnimation_sets[of p _ s] on_timer_index[of p s] mousePressEvent_playing[of _ _ s]
    by blast
qed

theorem playing_index_within_path_witness:
  "reachable demo_platform demo_playing \<and> playing demo_playing \<and>
   0 \<le> drone_index demo_playing \<and> drone_index demo_playing < int (length (path_points demo_playing))"
proof -
  have "playing demo_playing" by (simp add: demo_playing_def)
  with playing_index_within_path[OF demo_playing_reachable] demo_playing_reachable
  show ?thesis by blast
qed

section \<open>A footprint that is too small (C7)\<close>



section \<open>Reads of the path (C8)\<close>

text \<open>
  Claim C8. For every canvas, whatever its index and path, \<^verbatim>\<open>paintEvent\<close> returns and
  \<^verbatim>\<open>_emit_crop\<close> raises no \<^verbatim>\<open>IndexError\<close> (with a footprint that fits it raises
  nothing). The clamped index of any integer lies in \<open>[0, length - 1]\<close> on a path that
  is not empty, and the read at it succeeds; on a path of at least two points the heading
  at the clamped index reads a neighbour that is in range as well.
\<close>

theorem path_reads_never_fail:
  "(\<exists>r. paintEvent p s = Inr r) \<and> emit_crop p s \<noteq> Inl IndexError \<and>
   (footprint_fits s \<longrightarrow> (\<exists>s'. emit_crop p s = Inr s')) \<and>
   (path_points s \<noteq> [] \<longrightarrow>
      0 \<le> max 0 (min i (int (length (path_points s)) - 1)) \<and>
      max 0 (min i (int (length (path_points s)) - 1)) \<le> int (length (path_points s)) - 1 \<and>
      py_index (path_points s) (max 0 (min i (int (length (path_points s)) - 1))) =
        Inr (path_points s ! nat (max 0 (min i (int (length (path_points s)) - 1))))) \<and>
   (hasPath s \<longrightarrow>
      (\<exists>a. heading_angle_deg p s (max 0 (min i (int (length (path_points s)) - 1))) = Inr a) \<and>
      (if max 0 (min i (int (length (path_points s)) - 1)) < int (length (path_points s)) - 1
       then max 0 (min i (int (length (path_points s)) - 1)) + 1 \<le> int (length (path_points s)) - 1
       else 0 \<le> max 0 (min i (int (length (path_points s)) - 1)) - 1))"
proof (intro conjI impI)
  show "\<exists>r. paintEvent p s = Inr r" by (rule paintEvent_total)
  show "emit_crop p s \<noteq> Inl IndexError" by (rule emit_crop_not_IndexError)
next
  assume "footprint_fits s"
  from emit_crop_fits[OF this, of p] show "\<exists>s'. emit_crop p s = Inr s'" by blast
next
  assume ne: "path_points s \<noteq> []"
  then have l: "0 < length (path_points s)" by simp
  show "0 \<le> max 0 (min i (int (length (path_points s)) - 1))" by simp
  show b: "max 0 (min i (int (length (path_points s)) - 1)) \<le> int (length (path_points s)) - 1"
    using l by simp
  show "py_index (path_points s) (max 0 (min i (int (length (path_points s)) - 1))) =
        Inr (path_points s ! nat (max 0 (min i (int (length (path_points s)) - 1))))"
    by (rule py_index_in_range) (use b in simp_all)
next
  assume hp: "hasPath s"
  then have len: "1 < length (path_points s)" by (simp add: hasPath_def)
  from clamped_bounds[OF len, of i] heading_defined[of "max 0 (min i (int (length (path_points s)) - 1))" s p]
  show "\<exists>a. heading_angle_deg p s (max 0 (min i (int (length (path_points s)) - 1))) = Inr a" by blast
  show "if max 0 (min i (int (length (path_points s)) - 1)) < int (length (path_points s)) - 1
       then max 0 (min i (int (length (path_points s)) - 1)) + 1 \<le> int (length (path_points s)) - 1
       else 0 \<le> max 0 (min i (int (length (path_points s)) - 1)) - 1"
    using len by auto
qed

theorem path_reads_never_fail_witness:
  "path_points (demo_drawn\<lparr>drone_index := - 3\<rparr>) \<noteq> [] \<and> hasPath (demo_drawn\<lparr>drone_index := - 3\<rparr>) \<and>
   footprint_fits (demo_drawn\<lparr>drone_index := - 3\<rparr>) \<and>
   (\<exists>r. paintEvent demo_platform (demo_drawn\<lparr>drone_index := - 3\<rparr>) = Inr r) \<and>
   (\<exists>s'. emit_crop demo_platform (demo_drawn\<lparr>drone_index := - 3\<rparr>) = Inr s') \<and>
   py_index (path_points (demo_drawn\<lparr>drone_index := - 3\<rparr>)) (max 0 (min 7 (2 - 1))) = Inr (1, 0) \<and>
   (\<exists>a. heading_angle_deg demo_platform (demo_drawn\<lparr>drone_index := - 3\<rparr>) (max 0 (min 7 (2 - 1))) = Inr a)"
proof -
  let ?s = "demo_drawn\<lparr>drone_index := - 3\<rparr>"
  have a: "path_points ?s \<noteq> []" "hasPath ?s" "footprint_fits ?s"
    by (simp_all add: demo_drawn_def hasPath_def footprint_fits_def py_int_def)
  have l: "int (length (path_points ?s)) = 2" by (simp add: demo_drawn_def)
  have n: "path_points ?s ! nat (max 0 (min 7 (2 - 1))) = (1, 0)" by (simp add: demo_drawn_def)
  from path_reads_never_fail[of demo_platform ?s 7] a
  have "(\<exists>r. paintEvent demo_platform ?s = Inr r)"
    "(\<exists>s'. emit_crop demo_platform ?s = Inr s')"
    "py_index (path_points ?s) (max 0 (min 7 (2 - 1))) = Inr (path_points ?s ! nat (max 0 (min 7 (2 - 1))))"
    "(\<exists>a. heading_angle_deg demo_platform ?s (max 0 (min 7 (2 - 1))) = Inr a)"
    unfolding l by blast+
  with a n show ?thesis by simp
qed

section \<open>The footprint in reachable states (C9)\<close>




section \<open>Releasing a mouse button (C10)\<close>

text \<open>
  Claim C10. Releasing the left button clears the drawing flag; releasing any other
  button changes nothing; no release changes any other field.
\<close>

theorem release_only_ends_drawing:
  "drawing (mouseReleaseEvent b s) = (if b = LeftButton then False else drawing s) \<and>
   (b \<noteq> LeftButton \<longrightarrow> mouseReleaseEvent b s = s) \<and>
   image (mouseReleaseEvent b s) = image s \<and>
   image_qimage (mouseReleaseEvent b s) = image_qimage s \<and>
   path_points (mouseReleaseEvent b s) = path_points s \<and>
   drone_index (mouseReleaseEvent b s) = drone_index s \<and>
   playing (mouseReleaseEvent b s) = playing s \<and>
   rect_width_px (mouseReleaseEvent b s) = rect_width_px s \<and>
   rect_height_px (mouseReleaseEvent b s) = rect_height_px s \<and>
   timer (mouseReleaseEvent b s) = timer s \<and>
   emitted (mouseReleaseEvent b s) = emitted s"
  by (simp add: mouseReleaseEvent_def)

theorem release_only_ends_drawing_witness:
  "RightButton \<noteq> LeftButton \<and>
   mouseReleaseEvent RightButton (demo_drawn\<lparr>drawing := True\<rparr>) = demo_drawn\<lparr>drawing := True\<rparr> \<and>
   drawing (mouseReleaseEvent LeftButton (demo_drawn\<lparr>drawing := True\<rparr>)) = False"
  using release_only_ends_drawing[of RightButton "demo_drawn\<lparr>drawing := True\<rparr>"]
    release_only_ends_drawing[of LeftButton "demo_drawn\<lparr>drawing := True\<rparr>"]
  by simp

end
